theory Spec2Isabelle
  imports Main
begin

section \<open>yopt: the command-line tokenizer and its typed accessors (include/yopt.h)\<close>

text \<open>
  The development follows \<^verbatim>\<open>yopt::options<char>\<close> and the free function
  \<^verbatim>\<open>strip_quotes\<close>.

  A \<^verbatim>\<open>const char *\<close> into a null-terminated buffer is modelled by the suffix of the
  buffer it points at: the characters from the pointer to the terminator (exclusive).
  The pointer at the terminator itself is the empty suffix. All pointers of one
  \<^verbatim>\<open>parse\<close> call point into the same buffer, so they are ordered by the length of
  their suffixes. A \<^verbatim>\<open>std::string_view\<close> stored by the parser is modelled by its
  content (the map and every accessor compare views by content).
\<close>

subsection \<open>Configuration and character classes\<close>

definition max_length :: nat where
  "max_length = 4096"

definition is_eol :: "char \<Rightarrow> bool" where
  "is_eol c = (c = CHR 0x00)"

definition is_whitespace :: "char \<Rightarrow> bool" where
  "is_whitespace c = ((c = CHR '' '') \<or> (c = CHR 0x09) \<or> (c = CHR 0x0D) \<or> (c = CHR 0x0A))"

definition is_dash :: "char \<Rightarrow> bool" where
  "is_dash c = (c = CHR ''-'')"

definition is_quote :: "char \<Rightarrow> bool" where
  "is_quote c = (c = CHR 0x22)"

definition is_equal_sign :: "char \<Rightarrow> bool" where
  "is_equal_sign c = (c = CHR ''='')"

subsection \<open>Pointers into the scanned buffer\<close>

text \<open>\<^verbatim>\<open>*c\<close>: the character under the pointer; the terminator at the end of the buffer.\<close>

definition deref :: "string \<Rightarrow> char" where
  "deref c = (case c of [] \<Rightarrow> CHR 0x00 | x # _ \<Rightarrow> x)"

text \<open>
  \<^verbatim>\<open>c + 1\<close>. The code increments only pointers that are not at the terminator (the
  loop leaves at the terminator, and a token starts at a character).
\<close>

definition ptr_inc :: "string \<Rightarrow> string" where
  "ptr_inc c = drop 1 c"

text \<open>\<^verbatim>\<open>p < q\<close> and \<^verbatim>\<open>p == q\<close> for two pointers into the same buffer.\<close>

definition ptr_less :: "string \<Rightarrow> string \<Rightarrow> bool" where
  "ptr_less p q = (length q < length p)"

definition ptr_eq :: "string \<Rightarrow> string \<Rightarrow> bool" where
  "ptr_eq p q = (length p = length q)"

text \<open>The view \<^verbatim>\<open>{p, q}\<close>: the characters from \<open>p\<close> up to \<open>q\<close> (exclusive).\<close>

definition view :: "string \<Rightarrow> string \<Rightarrow> string" where
  "view p q = take (length p - length q) p"

subsection \<open>The parsed state\<close>

text \<open>
  Member \<^verbatim>\<open>a\<close> (the free standing values, returned by \<^verbatim>\<open>args()\<close>) is the field
  \<open>args\<close>; member \<^verbatim>\<open>opts\<close> is the key-value map.
\<close>

record options =
  args :: "string list"
  opts :: "string \<rightharpoonup> string"

definition empty_options :: options where
  "empty_options = \<lparr>args = [], opts = Map.empty\<rparr>"

text \<open>
  \<^verbatim>\<open>opts[key];\<close> without an assignment: \<^verbatim>\<open>std::map::operator[]\<close> inserts an empty
  value when the key is absent and leaves an existing entry as it is.
\<close>

definition opts_subscript :: "options \<Rightarrow> string \<Rightarrow> options" where
  "opts_subscript self key =
     (case opts self key of
        None \<Rightarrow> self\<lparr>opts := (opts self)(key \<mapsto> [])\<rparr>
      | Some v \<Rightarrow> self)"

text \<open>\<^verbatim>\<open>opts[key] = v;\<close>\<close>

definition opts_assign :: "options \<Rightarrow> string \<Rightarrow> string \<Rightarrow> options" where
  "opts_assign self key v = self\<lparr>opts := (opts self)(key \<mapsto> v)\<rparr>"

text \<open>\<^verbatim>\<open>a.emplace_back(first, last);\<close>\<close>

definition emplace_back :: "options \<Rightarrow> string \<Rightarrow> options" where
  "emplace_back self v = self\<lparr>args := args self @ [v]\<rparr>"

subsection \<open>The state machine of \<^verbatim>\<open>options::parse\<close>\<close>

datatype parse_state =
  none_ps | key_prefix_ps | long_key_prefix_ps | key_ps | value_ps | quoted_value_ps

text \<open>
  The \<^verbatim>\<open>switch (ps)\<close> of one loop iteration. The locals \<open>ps\<close>, \<open>token_start\<close> and
  \<open>key\<close> and the object are returned updated.
\<close>

definition switch_ps ::
  "bool \<Rightarrow> parse_state \<Rightarrow> string \<Rightarrow> string \<Rightarrow> string \<Rightarrow> options
     \<Rightarrow> parse_state \<times> string \<times> string \<times> options" where
  "switch_ps single_value ps token_start key c self =
     (case ps of
        none_ps \<Rightarrow>
          if is_whitespace (deref c) then (ps, token_start, key, self)
          else if is_dash (deref c) then
            (key_prefix_ps, token_start, key,
             if length key > 0 then opts_subscript self key else self)
          else if is_quote (deref c) then (quoted_value_ps, c, key, self)
          else (value_ps, c, key, self)
      | key_prefix_ps \<Rightarrow>
          if is_dash (deref c) then (long_key_prefix_ps, token_start, key, self)
          else if is_whitespace (deref c) then (none_ps, token_start, key, self)
          else (key_ps, c, key, self)
      | long_key_prefix_ps \<Rightarrow>
          if is_whitespace (deref c) then (none_ps, token_start, key, self)
          else (key_ps, c, key, self)
      | key_ps \<Rightarrow>
          if is_whitespace (deref c) then
            (none_ps, token_start, key,
             if ptr_less token_start c then opts_subscript self (view token_start c) else self)
          else if is_equal_sign (deref c) then
            (value_ps, ptr_inc c, view token_start c, self)
          else (ps, token_start, key, self)
      | value_ps \<Rightarrow>
          if is_quote (deref c) \<and> ptr_eq token_start c then
            (quoted_value_ps, token_start, key, self)
          else if is_whitespace (deref c) \<and> \<not> single_value then
            (none_ps, token_start, [],
             if length key > 0 then opts_assign self key (view token_start c)
             else emplace_back self (view token_start c))
          else (ps, token_start, key, self)
      | quoted_value_ps \<Rightarrow>
          if is_quote (deref c) then
            (none_ps, token_start, [],
             if length key > 0 then opts_assign self key (view (ptr_inc token_start) c)
             else emplace_back self (view (ptr_inc token_start) c))
          else (ps, token_start, key, self))"

text \<open>The block under \<^verbatim>\<open>if (is_eol(*c))\<close>: handle trailing tokens.\<close>

definition trailing :: "parse_state \<Rightarrow> string \<Rightarrow> string \<Rightarrow> string \<Rightarrow> options \<Rightarrow> options" where
  "trailing ps token_start key c self =
     (if ps = key_ps \<and> ptr_less token_start c then
        opts_subscript self (view token_start c)
      else if ps = value_ps then
        (if length key > 0 then opts_assign self key (view token_start c)
         else if ptr_less token_start c then emplace_back self (view token_start c)
         else self)
      else if ps = quoted_value_ps then
        (if length key > 0 then opts_assign self key (view (ptr_inc token_start) c)
         else emplace_back self (view (ptr_inc token_start) c))
      else self)"

text \<open>
  The \<^verbatim>\<open>while (len < max_length)\<close> loop. \<open>c\<close> and \<open>len\<close> advance together; the loop
  ends at the terminator (after the trailing-token block) or when \<open>len\<close> reaches the
  bound (with nothing else done).
\<close>

function parse_loop ::
  "bool \<Rightarrow> nat \<Rightarrow> parse_state \<Rightarrow> string \<Rightarrow> string \<Rightarrow> string \<Rightarrow> options \<Rightarrow> options" where
  "parse_loop single_value len ps token_start key c self =
     (if len < max_length then
        (case switch_ps single_value ps token_start key c self of
           (ps', token_start', key', self') \<Rightarrow>
             if is_eol (deref c) then trailing ps' token_start' key' c self'
             else parse_loop single_value (len + 1) ps' token_start' key' (ptr_inc c) self')
      else self)"
  by pat_completeness auto
termination
  by (relation "measure (\<lambda>(single_value, len, ps, token_start, key, c, self). max_length - len)")
     auto

definition parse :: "string \<Rightarrow> bool \<Rightarrow> options \<Rightarrow> options" where
  "parse s single_value self = parse_loop single_value 0 none_ps s [] s self"

subsection \<open>Constructors\<close>

text \<open>
  \<^verbatim>\<open>options(int argc, const CharT ** argv)\<close>: starts from 1, skips the program name. The
  caller passes an array of at least \<open>argc\<close> elements; every theorem below takes \<open>argc\<close>
  to be the length of the array.
\<close>

definition options_argv :: "nat \<Rightarrow> string list \<Rightarrow> options" where
  "options_argv argc argv =
     foldl (\<lambda>self i. parse (argv ! i) True self) empty_options [1..<argc]"

text \<open>\<^verbatim>\<open>options(const CharT * cmd_line)\<close>\<close>

definition options_cmd_line :: "string \<Rightarrow> options" where
  "options_cmd_line cmd_line = parse cmd_line False empty_options"

subsection \<open>Accessors\<close>

datatype error = out_of_range | invalid_argument

definition find_opt :: "options \<Rightarrow> string \<Rightarrow> string option" where
  "find_opt self key = opts self key"

definition has_opt :: "options \<Rightarrow> string \<Rightarrow> bool" where
  "has_opt self key = (find_opt self key \<noteq> None)"

definition get_string :: "options \<Rightarrow> string \<Rightarrow> string option" where
  "get_string self key =
     (case find_opt self key of None \<Rightarrow> None | Some second \<Rightarrow> Some second)"

definition get_string_default :: "options \<Rightarrow> string \<Rightarrow> string \<Rightarrow> string" where
  "get_string_default self key default_value =
     (case get_string self key of None \<Rightarrow> default_value | Some v \<Rightarrow> v)"

definition get_required_string :: "options \<Rightarrow> string \<Rightarrow> error + string" where
  "get_required_string self key =
     (case get_string self key of None \<Rightarrow> Inl out_of_range | Some v \<Rightarrow> Inr v)"

definition true_values :: "string set" where
  "true_values = {''TRUE'', ''true'', ''T'', ''YES'', ''yes'', ''Y'', ''y'', ''1''}"

definition false_values :: "string set" where
  "false_values = {''FALSE'', ''false'', ''F'', ''NO'', ''no'', ''N'', ''n'', ''0''}"

definition get_bool :: "options \<Rightarrow> string \<Rightarrow> bool \<Rightarrow> error + bool" where
  "get_bool self key default_value =
     (case get_string self key of
        None \<Rightarrow> Inr default_value
      | Some s \<Rightarrow>
          if s = [] then Inr True
          else if s \<in> true_values then Inr True
          else if s \<in> false_values then Inr False
          else Inl invalid_argument)"

subsection \<open>\<^verbatim>\<open>std::from_chars\<close> and \<^verbatim>\<open>get_int\<close>\<close>

text \<open>
  \<^verbatim>\<open>std::from_chars(first, last, value)\<close> for \<^verbatim>\<open>int\<close> in base 10 belongs to the C++
  standard library, not to this repository; it is modelled from the C++ standard
  (charconv.from.chars): the pattern is that of \<^verbatim>\<open>strtol\<close> in the C locale, except that
  leading whitespace is not skipped and only a minus sign (no plus sign) is recognised.
  The longest prefix matching the pattern is converted. With no match, \<open>ptr\<close> is
  \<open>first\<close>, \<open>ec\<close> is \<^verbatim>\<open>errc::invalid_argument\<close> and \<open>value\<close> is unmodified. When the
  converted number does not fit \<^verbatim>\<open>int\<close>, \<open>ec\<close> is \<^verbatim>\<open>errc::result_out_of_range\<close> and
  \<open>value\<close> is unmodified. Otherwise \<open>ec\<close> is value-initialised (\<^verbatim>\<open>std::errc()\<close>). In each
  of the last two cases \<open>ptr\<close> is the first character not matching the pattern.
  \<^verbatim>\<open>int\<close> has 32 bits. \<open>get_int\<close> is the branch for \<^verbatim>\<open>char\<close>, which passes the
  stored view to \<^verbatim>\<open>std::from_chars\<close> as it is.
\<close>

datatype errc = errc_none | errc_invalid_argument | errc_result_out_of_range

record from_chars_result =
  ptr :: string
  ec :: errc

definition is_digit :: "char \<Rightarrow> bool" where
  "is_digit c = (c \<in> set ''0123456789'')"

definition digit_value :: "char \<Rightarrow> int" where
  "digit_value c = int (of_char c) - 48"

definition decimal :: "string \<Rightarrow> int" where
  "decimal ds = foldl (\<lambda>n d. 10 * n + digit_value d) 0 ds"

definition int_min :: int where
  "int_min = - 2147483648"

definition int_max :: int where
  "int_max = 2147483647"

definition from_chars :: "string \<Rightarrow> int \<Rightarrow> from_chars_result \<times> int" where
  "from_chars s val =
     (let negative = (s \<noteq> [] \<and> hd s = CHR ''-'');
          body = (if negative then tl s else s);
          digits = takeWhile is_digit body;
          n = (if negative then - decimal digits else decimal digits)
      in if digits = [] then (\<lparr>ptr = s, ec = errc_invalid_argument\<rparr>, val)
         else if n < int_min \<or> int_max < n then
           (\<lparr>ptr = dropWhile is_digit body, ec = errc_result_out_of_range\<rparr>, val)
         else (\<lparr>ptr = dropWhile is_digit body, ec = errc_none\<rparr>, n))"

definition get_int :: "options \<Rightarrow> string \<Rightarrow> int option" where
  "get_int self key =
     (case get_string self key of
        None \<Rightarrow> None
      | Some sv \<Rightarrow>
          (case from_chars sv 0 of
             (r, val) \<Rightarrow> if ec r = errc_none then Some val else None))"

definition get_int_default :: "options \<Rightarrow> string \<Rightarrow> int \<Rightarrow> int" where
  "get_int_default self key default_value =
     (case get_int self key of None \<Rightarrow> default_value | Some v \<Rightarrow> v)"

subsection \<open>Positional arguments\<close>

definition arg :: "options \<Rightarrow> nat \<Rightarrow> error + string" where
  "arg self index =
     (if index < length (args self) then Inr (args self ! index) else Inl out_of_range)"

definition arg_count :: "options \<Rightarrow> nat" where
  "arg_count self = length (args self)"

subsection \<open>\<^verbatim>\<open>strip_quotes\<close>\<close>

text \<open>
  \<^verbatim>\<open>strip_quotes\<close> takes any view, so its view is modelled with its position: a
  \<^verbatim>\<open>std::string_view\<close> is the address of its first character and its size, over a
  memory that maps every address to the character stored there. The iterators \<open>b\<close> and
  \<open>e\<close> are addresses. The function returns the addresses it dereferences, in order,
  and the view it constructs from \<^verbatim>\<open>{b, e+1}\<close>.
\<close>

record string_view =
  sv_data :: nat
  sv_size :: nat

definition sv_begin :: "string_view \<Rightarrow> nat" where
  "sv_begin s = sv_data s"

definition sv_end :: "string_view \<Rightarrow> nat" where
  "sv_end s = sv_data s + sv_size s"

text \<open>The characters of a view.\<close>

definition sv_content :: "(nat \<Rightarrow> char) \<Rightarrow> string_view \<Rightarrow> string" where
  "sv_content mem s = map mem [sv_begin s ..< sv_end s]"

definition strip_quotes :: "(nat \<Rightarrow> char) \<Rightarrow> string_view \<Rightarrow> nat list \<times> string_view" where
  "strip_quotes mem s =
     (let b0 = sv_begin s;
          b = (if mem b0 = CHR 0x22 \<and> b0 \<noteq> sv_end s then b0 + 1 else b0);
          e0 = sv_end s
      in if e0 \<noteq> b then
           (let e1 = e0 - 1;
                e = (if mem e1 = CHR 0x22 \<and> e1 \<noteq> b then e1 - 1 else e1)
            in ([b0, e1], \<lparr>sv_data = b, sv_size = e + 1 - b\<rparr>))
         else ([b0], \<lparr>sv_data = b, sv_size = e0 + 1 - b\<rparr>))"

text \<open>A view within a view, and a memory holding a given string from address 0.\<close>

definition sub_range :: "string_view \<Rightarrow> string_view \<Rightarrow> bool" where
  "sub_range r s = (sv_begin s \<le> sv_begin r \<and> sv_end r \<le> sv_end s)"

definition in_view :: "nat \<Rightarrow> string_view \<Rightarrow> bool" where
  "in_view p s = (sv_begin s \<le> p \<and> p < sv_end s)"

definition mem_of :: "string \<Rightarrow> nat \<Rightarrow> char" where
  "mem_of xs p = (if p < length xs then xs ! p else CHR 0x00)"

definition view_of :: "string \<Rightarrow> string_view" where
  "view_of xs = \<lparr>sv_data = 0, sv_size = length xs\<rparr>"

text \<open>
  The specification's \<^verbatim>\<open>strip_quotes\<close>, in its own words, on the characters of the
  view: one leading quote is removed if present, and one trailing quote is removed if
  present.
\<close>

definition strip_quotes_spec :: "string \<Rightarrow> string" where
  "strip_quotes_spec xs =
     (let ys = (if xs \<noteq> [] \<and> hd xs = CHR 0x22 then tl xs else xs)
      in if ys \<noteq> [] \<and> last ys = CHR 0x22 then butlast ys else ys)"

subsection \<open>Token shapes of the command syntax\<close>

text \<open>
  The shapes of the tokens the theorems speak about, as the state machine reads them: the
  dashes of a key marker; a key (not empty, not starting with a dash, without whitespace,
  equal sign or terminator); an unquoted value in the given mode (not starting with a
  quote, without terminator, and in multi-token mode without whitespace); a free-standing
  unquoted value (which in addition starts with neither whitespace nor a dash); the
  characters between two quotes.
\<close>

definition key_char :: "char \<Rightarrow> bool" where
  "key_char x = (\<not> is_whitespace x \<and> \<not> is_equal_sign x \<and> \<not> is_eol x)"

definition well_formed_key :: "string \<Rightarrow> bool" where
  "well_formed_key k = (k \<noteq> [] \<and> \<not> is_dash (hd k) \<and> (\<forall>x\<in>set k. key_char x))"

definition dashes :: "string \<Rightarrow> bool" where
  "dashes d = (d = ''-'' \<or> d = ''--'')"

definition unquoted_value :: "bool \<Rightarrow> string \<Rightarrow> bool" where
  "unquoted_value sv v =
     ((v = [] \<or> \<not> is_quote (hd v)) \<and> (\<forall>x\<in>set v. \<not> is_eol x \<and> (sv \<or> \<not> is_whitespace x)))"

definition free_value :: "bool \<Rightarrow> string \<Rightarrow> bool" where
  "free_value sv v =
     (v \<noteq> [] \<and> \<not> is_whitespace (hd v) \<and> \<not> is_dash (hd v) \<and> unquoted_value sv v)"

definition quoted_body :: "string \<Rightarrow> bool" where
  "quoted_body q = (\<forall>x\<in>set q. \<not> is_eol x \<and> \<not> is_quote x)"

subsection \<open>Command lines as token lists\<close>

text \<open>
  The command syntax in the words of the specification: a bare flag \<^verbatim>\<open>-key\<close> or
  \<^verbatim>\<open>--key\<close>, a keyed value \<^verbatim>\<open>-key=value\<close>, a keyed quoted value \<^verbatim>\<open>-key="quoted value"\<close>,
  a bare token and a quoted token. \<open>token_text\<close> writes a token out; \<open>dangling_text\<close>
  writes it without the closing quote, as a token the input ends in. A command line is a
  list of tokens and whitespace characters; it is \<open>separated\<close> when its tokens are well
  formed for multi-token mode and no two tokens touch. \<open>store\<close> names what a token
  leaves in the parsed state, in terms of the three operations of the parser: a flag
  subscripts the map with its key, a keyed value is assigned to its key, a free-standing
  value is appended to the positional arguments; that the parser does so is proved below
  (\<open>parse_loop_command_line\<close>). \<open>gives_value key t\<close> says that \<open>t\<close> is an occurrence
  of \<open>key\<close> with an \<^verbatim>\<open>=value\<close> part.
\<close>

datatype token =
    Flag string string
  | Keyed string string string
  | Keyed_Quoted string string string
  | Free string
  | Quoted string

datatype item = Tok token | Ws char

fun token_text :: "token \<Rightarrow> string" where
  "token_text (Flag d k) = d @ k"
| "token_text (Keyed d k v) = d @ k @ ''='' @ v"
| "token_text (Keyed_Quoted d k q) = d @ k @ ''='' @ CHR 0x22 # q @ [CHR 0x22]"
| "token_text (Free v) = v"
| "token_text (Quoted q) = CHR 0x22 # q @ [CHR 0x22]"

fun dangling_text :: "token \<Rightarrow> string" where
  "dangling_text (Flag d k) = d @ k"
| "dangling_text (Keyed d k v) = d @ k @ ''='' @ v"
| "dangling_text (Keyed_Quoted d k q) = d @ k @ ''='' @ CHR 0x22 # q"
| "dangling_text (Free v) = v"
| "dangling_text (Quoted q) = CHR 0x22 # q"

fun well_formed_token :: "bool \<Rightarrow> token \<Rightarrow> bool" where
  "well_formed_token sv (Flag d k) = (dashes d \<and> well_formed_key k)"
| "well_formed_token sv (Keyed d k v) = (dashes d \<and> well_formed_key k \<and> unquoted_value sv v)"
| "well_formed_token sv (Keyed_Quoted d k q) = (dashes d \<and> well_formed_key k \<and> quoted_body q)"
| "well_formed_token sv (Free v) = free_value sv v"
| "well_formed_token sv (Quoted q) = quoted_body q"

fun command_line :: "item list \<Rightarrow> string" where
  "command_line [] = []"
| "command_line (Tok t # xs) = token_text t @ command_line xs"
| "command_line (Ws w # xs) = w # command_line xs"

fun tokens :: "item list \<Rightarrow> token list" where
  "tokens [] = []"
| "tokens (Tok t # xs) = t # tokens xs"
| "tokens (Ws w # xs) = tokens xs"

fun separated :: "item list \<Rightarrow> bool" where
  "separated [] = True"
| "separated (Ws w # xs) = (is_whitespace w \<and> separated xs)"
| "separated [Tok t] = well_formed_token False t"
| "separated (Tok t # Ws w # xs) = (well_formed_token False t \<and> is_whitespace w \<and> separated xs)"
| "separated (Tok t # Tok u # xs) = False"

fun store :: "options \<Rightarrow> token \<Rightarrow> options" where
  "store self (Flag d k) = opts_subscript self k"
| "store self (Keyed d k v) = opts_assign self k v"
| "store self (Keyed_Quoted d k q) = opts_assign self k q"
| "store self (Free v) = emplace_back self v"
| "store self (Quoted q) = emplace_back self q"

fun ends_with_whitespace :: "item list \<Rightarrow> bool" where
  "ends_with_whitespace [] = True"
| "ends_with_whitespace [Ws w] = True"
| "ends_with_whitespace [Tok t] = False"
| "ends_with_whitespace (x # y # xs) = ends_with_whitespace (y # xs)"

fun gives_value :: "string \<Rightarrow> token \<Rightarrow> bool" where
  "gives_value key (Keyed d k v) = (k = key)"
| "gives_value key (Keyed_Quoted d k q) = (k = key)"
| "gives_value key (Flag d k) = False"
| "gives_value key (Free v) = False"
| "gives_value key (Quoted q) = False"

section \<open>Unfolding the loop\<close>


declare parse_loop.simps [simp del]

lemma parse_loop_bound:
  "\<not> len < max_length \<Longrightarrow> parse_loop sv len ps ts key c self = self"
  by (subst parse_loop.simps) simp

lemma parse_loop_Nil:
  "len < max_length \<Longrightarrow>
   parse_loop sv len ps ts key [] self =
     (case switch_ps sv ps ts key [] self of
        (ps', ts', key', self') \<Rightarrow> trailing ps' ts' key' [] self')"
  by (subst parse_loop.simps) (simp add: deref_def is_eol_def)

lemma parse_loop_Cons:
  "len < max_length \<Longrightarrow>
   parse_loop sv len ps ts key (x # xs) self =
     (case switch_ps sv ps ts key (x # xs) self of
        (ps', ts', key', self') \<Rightarrow>
          if is_eol x then trailing ps' ts' key' (x # xs) self'
          else parse_loop sv (Suc len) ps' ts' key' xs self')"
  by (subst parse_loop.simps) (simp add: deref_def ptr_inc_def split: prod.split)

lemma key_run:
  "\<forall>x\<in>set k. key_char x \<Longrightarrow>
   parse_loop sv len key_ps ts key (k @ rest) self =
   parse_loop sv (len + length k) key_ps ts key rest self"
proof (induction k arbitrary: len)
  case Nil
  then show ?case by simp
next
  case (Cons x k)
  show ?case
  proof (cases "len < max_length")
    case True
    with Cons show ?thesis
      by (simp add: parse_loop_Cons switch_ps_def key_char_def deref_def)
  next
    case False
    then show ?thesis by (simp add: parse_loop_bound)
  qed
qed

lemma value_run:
  "\<forall>x\<in>set v. \<not> is_eol x \<and> (sv \<or> \<not> is_whitespace x) \<Longrightarrow>
   length (v @ rest) < length ts \<Longrightarrow>
   parse_loop sv len value_ps ts key (v @ rest) self =
   parse_loop sv (len + length v) value_ps ts key rest self"
proof (induction v arbitrary: len)
  case Nil
  then show ?case by simp
next
  case (Cons x v)
  show ?case
  proof (cases "len < max_length")
    case True
    with Cons show ?thesis
      by (auto simp add: parse_loop_Cons switch_ps_def deref_def ptr_eq_def)
  next
    case False
    then show ?thesis by (simp add: parse_loop_bound)
  qed
qed

lemma quoted_run:
  "\<forall>x\<in>set q. \<not> is_eol x \<and> \<not> is_quote x \<Longrightarrow>
   parse_loop sv len quoted_value_ps ts key (q @ rest) self =
   parse_loop sv (len + length q) quoted_value_ps ts key rest self"
proof (induction q arbitrary: len)
  case Nil
  then show ?case by simp
next
  case (Cons x q)
  show ?case
  proof (cases "len < max_length")
    case True
    with Cons show ?thesis
      by (simp add: parse_loop_Cons switch_ps_def deref_def)
  next
    case False
    then show ?thesis by (simp add: parse_loop_bound)
  qed
qed

lemma parse_loop_step:
  assumes "\<not> is_eol x"
    and "switch_ps sv ps ts key (x # xs) self = (ps', ts', key', self)"
  shows "parse_loop sv len ps ts key (x # xs) self = parse_loop sv (Suc len) ps' ts' key' xs self"
proof (cases "len < max_length")
  case True
  with assms show ?thesis by (simp add: parse_loop_Cons)
next
  case False
  then show ?thesis by (simp add: parse_loop_bound)
qed

lemma scan_dashes:
  assumes "dashes d" "\<not> is_dash x" "\<not> is_whitespace x" "\<not> is_eol x"
  shows "parse_loop sv len none_ps ts [] (d @ x # xs) self =
         parse_loop sv (len + length d + 1) key_ps (x # xs) [] xs self"
proof -
  have dash: "\<not> is_eol CHR ''-''" "is_dash CHR ''-''" "\<not> is_whitespace CHR ''-''"
    by (simp_all add: is_eol_def is_dash_def is_whitespace_def)
  have s0: "parse_loop sv n none_ps ts [] (CHR ''-'' # ys) self =
            parse_loop sv (Suc n) key_prefix_ps ts [] ys self" for n ys
    by (rule parse_loop_step) (simp_all add: dash switch_ps_def deref_def)
  have s1: "parse_loop sv n key_prefix_ps ts [] (CHR ''-'' # ys) self =
            parse_loop sv (Suc n) long_key_prefix_ps ts [] ys self" for n ys
    by (rule parse_loop_step) (simp_all add: dash switch_ps_def deref_def)
  have s2: "parse_loop sv n key_prefix_ps ts [] (x # xs) self =
            parse_loop sv (Suc n) key_ps (x # xs) [] xs self" for n
    by (rule parse_loop_step) (simp_all add: assms switch_ps_def deref_def)
  have s3: "parse_loop sv n long_key_prefix_ps ts [] (x # xs) self =
            parse_loop sv (Suc n) key_ps (x # xs) [] xs self" for n
    by (rule parse_loop_step) (simp_all add: assms switch_ps_def deref_def)
  from assms(1) show ?thesis
    unfolding dashes_def by (auto simp add: s0 s1 s2 s3)
qed

lemma scan_key:
  assumes "dashes d" "well_formed_key k"
  shows "parse_loop sv len none_ps ts [] (d @ k @ rest) self =
         parse_loop sv (len + length d + length k) key_ps (k @ rest) [] rest self"
proof -
  from assms(2) obtain x k' where k: "k = x # k'"
    by (cases k) (auto simp: well_formed_key_def)
  with assms(2) have x: "\<not> is_dash x" "\<not> is_whitespace x" "\<not> is_eol x"
    and k': "\<forall>y\<in>set k'. key_char y"
    by (auto simp: well_formed_key_def key_char_def)
  have "parse_loop sv len none_ps ts [] (d @ x # (k' @ rest)) self =
        parse_loop sv (len + length d + 1) key_ps (x # (k' @ rest)) [] (k' @ rest) self"
    by (rule scan_dashes [OF assms(1) x])
  also have "\<dots> = parse_loop sv (len + length d + 1 + length k') key_ps (x # (k' @ rest)) [] rest self"
    by (rule key_run [OF k'])
  finally show ?thesis by (simp add: k)
qed

lemma flag_end:
  assumes "dashes d" "well_formed_key k" "len + length d + length k < max_length"
  shows "parse_loop sv len none_ps ts [] (d @ k) self = opts_subscript self k"
proof -
  have "parse_loop sv len none_ps ts [] (d @ k @ []) self =
        parse_loop sv (len + length d + length k) key_ps (k @ []) [] [] self"
    by (rule scan_key [OF assms(1,2)])
  moreover have "k \<noteq> []" using assms(2) by (simp add: well_formed_key_def)
  ultimately show ?thesis using assms(3)
    by (simp add: parse_loop_Nil switch_ps_def trailing_def deref_def is_whitespace_def
        is_equal_sign_def ptr_less_def view_def)
qed

lemma flag_ws:
  assumes "dashes d" "well_formed_key k" "len + length d + length k < max_length"
    and "is_whitespace w"
  shows "parse_loop sv len none_ps ts [] (d @ k @ w # rest) self =
         parse_loop sv (len + length d + length k + 1) none_ps (k @ w # rest) [] rest
           (opts_subscript self k)"
proof -
  have "parse_loop sv len none_ps ts [] (d @ k @ w # rest) self =
        parse_loop sv (len + length d + length k) key_ps (k @ w # rest) [] (w # rest) self"
    by (rule scan_key [OF assms(1,2)])
  moreover have "k \<noteq> []" using assms(2) by (simp add: well_formed_key_def)
  moreover have "\<not> is_eol w" using assms(4) by (auto simp: is_whitespace_def is_eol_def)
  ultimately show ?thesis using assms(3,4)
    by (simp add: parse_loop_Cons switch_ps_def deref_def ptr_less_def view_def)
qed

lemma flag_bound:
  assumes "dashes d" "well_formed_key k" "max_length \<le> len + length d + length k"
  shows "parse_loop sv len none_ps ts [] (d @ k @ rest) self = self"
  using assms(3) by (simp add: scan_key [OF assms(1,2)] parse_loop_bound)

lemma scan_equal_sign:
  "parse_loop sv len key_ps (k @ CHR ''='' # rest) key (CHR ''='' # rest) self =
   parse_loop sv (Suc len) value_ps rest k rest self"
  by (rule parse_loop_step)
     (simp_all add: switch_ps_def deref_def is_eol_def is_whitespace_def is_equal_sign_def
        ptr_inc_def view_def)

lemma scan_value:
  assumes "unquoted_value sv v"
  shows "parse_loop sv len value_ps (v @ rest) key (v @ rest) self =
         parse_loop sv (len + length v) value_ps (v @ rest) key rest self"
proof (cases v)
  case Nil
  then show ?thesis by simp
next
  case (Cons x v')
  with assms have x: "\<not> is_quote x" "\<not> is_eol x" "sv \<or> \<not> is_whitespace x"
    and v': "\<forall>y\<in>set v'. \<not> is_eol y \<and> (sv \<or> \<not> is_whitespace y)"
    by (auto simp: unquoted_value_def)
  have "parse_loop sv len value_ps (x # v' @ rest) key (x # v' @ rest) self =
        parse_loop sv (Suc len) value_ps (x # v' @ rest) key (v' @ rest) self"
    by (rule parse_loop_step) (use x in \<open>auto simp add: switch_ps_def deref_def\<close>)
  also have "\<dots> = parse_loop sv (Suc len + length v') value_ps (x # v' @ rest) key rest self"
    by (rule value_run [OF v']) simp
  finally show ?thesis by (simp add: Cons)
qed

lemma scan_keyed:
  assumes "dashes d" "well_formed_key k" "unquoted_value sv v"
  shows "parse_loop sv len none_ps ts [] (d @ k @ ''='' @ v @ rest) self =
         parse_loop sv (len + length d + length k + 1 + length v) value_ps (v @ rest) k rest self"
  by (simp add: scan_key [OF assms(1,2)] scan_equal_sign scan_value [OF assms(3)])

lemma keyed_end:
  assumes "dashes d" "well_formed_key k" "unquoted_value sv v"
    and "len + length d + length k + 1 + length v < max_length"
  shows "parse_loop sv len none_ps ts [] (d @ k @ ''='' @ v) self = opts_assign self k v"
proof -
  have "k \<noteq> []" using assms(2) by (simp add: well_formed_key_def)
  then show ?thesis
    using scan_keyed [OF assms(1-3), of len ts "[]" self] assms(4)
    by (simp add: parse_loop_Nil switch_ps_def trailing_def deref_def is_whitespace_def
        is_quote_def view_def)
qed

lemma keyed_ws:
  assumes "dashes d" "well_formed_key k" "unquoted_value False v"
    and "len + length d + length k + 1 + length v < max_length"
    and "is_whitespace w"
  shows "parse_loop False len none_ps ts [] (d @ k @ ''='' @ v @ w # rest) self =
         parse_loop False (len + length d + length k + length v + 2) none_ps (v @ w # rest) []
           rest (opts_assign self k v)"
proof -
  have "k \<noteq> []" using assms(2) by (simp add: well_formed_key_def)
  moreover have "\<not> is_eol w" "\<not> is_quote w"
    using assms(5) by (auto simp: is_whitespace_def is_eol_def is_quote_def)
  ultimately show ?thesis
    using scan_keyed [OF assms(1-3), of len ts "w # rest" self] assms(4,5)
    by (simp add: parse_loop_Cons switch_ps_def deref_def view_def)
qed

lemma keyed_bound:
  assumes "dashes d" "well_formed_key k" "unquoted_value sv v"
    and "max_length \<le> len + length d + length k + 1 + length v"
  shows "parse_loop sv len none_ps ts [] (d @ k @ ''='' @ v @ rest) self = self"
  using assms(4) scan_keyed [OF assms(1-3), of len ts rest self]
  by (simp add: parse_loop_bound)

lemma scan_free:
  assumes "free_value sv v"
  shows "parse_loop sv len none_ps ts [] (v @ rest) self =
         parse_loop sv (len + length v) value_ps (v @ rest) [] rest self"
proof -
  from assms obtain x v' where v: "v = x # v'"
    by (cases v) (auto simp: free_value_def)
  with assms have x: "\<not> is_quote x" "\<not> is_eol x" "\<not> is_whitespace x" "\<not> is_dash x"
    and v': "\<forall>y\<in>set v'. \<not> is_eol y \<and> (sv \<or> \<not> is_whitespace y)"
    by (auto simp: free_value_def unquoted_value_def)
  have "parse_loop sv len none_ps ts [] (x # v' @ rest) self =
        parse_loop sv (Suc len) value_ps (x # v' @ rest) [] (v' @ rest) self"
    by (rule parse_loop_step) (use x in \<open>auto simp add: switch_ps_def deref_def\<close>)
  also have "\<dots> = parse_loop sv (Suc len + length v') value_ps (x # v' @ rest) [] rest self"
    by (rule value_run [OF v']) simp
  finally show ?thesis by (simp add: v)
qed

lemma free_end:
  assumes "free_value sv v" "len + length v < max_length"
  shows "parse_loop sv len none_ps ts [] v self = emplace_back self v"
proof -
  have "v \<noteq> []" using assms(1) by (simp add: free_value_def)
  then show ?thesis
    using scan_free [OF assms(1), of len ts "[]" self] assms(2)
    by (simp add: parse_loop_Nil switch_ps_def trailing_def deref_def is_whitespace_def
        is_quote_def view_def ptr_less_def)
qed

lemma free_ws:
  assumes "free_value False v" "len + length v < max_length" "is_whitespace w"
  shows "parse_loop False len none_ps ts [] (v @ w # rest) self =
         parse_loop False (len + length v + 1) none_ps (v @ w # rest) [] rest
           (emplace_back self v)"
proof -
  have "\<not> is_eol w" "\<not> is_quote w"
    using assms(3) by (auto simp: is_whitespace_def is_eol_def is_quote_def)
  then show ?thesis
    using scan_free [OF assms(1), of len ts "w # rest" self] assms(2,3)
    by (simp add: parse_loop_Cons switch_ps_def deref_def view_def)
qed

lemma free_bound:
  assumes "free_value sv v" "max_length \<le> len + length v"
  shows "parse_loop sv len none_ps ts [] (v @ rest) self = self"
  using assms(2) by (simp add: scan_free [OF assms(1)] parse_loop_bound)

lemma none_end:
  "parse_loop sv len none_ps ts [] [] self = self"
proof (cases "len < max_length")
  case True
  then show ?thesis
    by (simp add: parse_loop_Nil switch_ps_def trailing_def deref_def is_whitespace_def
        is_quote_def is_dash_def ptr_less_def)
next
  case False
  then show ?thesis by (simp add: parse_loop_bound)
qed

lemma scan_quoted_free:
  assumes "quoted_body q"
  shows "parse_loop sv len none_ps ts [] (CHR 0x22 # q @ rest) self =
         parse_loop sv (len + 1 + length q) quoted_value_ps (CHR 0x22 # q @ rest) [] rest self"
proof -
  have "parse_loop sv len none_ps ts [] (CHR 0x22 # q @ rest) self =
        parse_loop sv (Suc len) quoted_value_ps (CHR 0x22 # q @ rest) [] (q @ rest) self"
    by (rule parse_loop_step)
       (simp_all add: switch_ps_def deref_def is_eol_def is_whitespace_def is_dash_def
          is_quote_def)
  also have "\<dots> = parse_loop sv (Suc len + length q) quoted_value_ps (CHR 0x22 # q @ rest) []
                      rest self"
    by (rule quoted_run) (use assms in \<open>simp add: quoted_body_def\<close>)
  finally show ?thesis by simp
qed

lemma scan_quoted_keyed:
  assumes "dashes d" "well_formed_key k" "quoted_body q"
  shows "parse_loop sv len none_ps ts [] (d @ k @ ''='' @ CHR 0x22 # q @ rest) self =
         parse_loop sv (len + length d + length k + 2 + length q) quoted_value_ps
           (CHR 0x22 # q @ rest) k rest self"
proof -
  have "parse_loop sv len none_ps ts [] (d @ k @ CHR ''='' # CHR 0x22 # q @ rest) self =
        parse_loop sv (len + length d + length k) key_ps (k @ CHR ''='' # CHR 0x22 # q @ rest) []
          (CHR ''='' # CHR 0x22 # q @ rest) self"
    by (rule scan_key [OF assms(1,2)])
  also have "\<dots> = parse_loop sv (Suc (len + length d + length k)) value_ps
                      (CHR 0x22 # q @ rest) k (CHR 0x22 # q @ rest) self"
    by (rule scan_equal_sign)
  also have "\<dots> = parse_loop sv (Suc (Suc (len + length d + length k))) quoted_value_ps
                      (CHR 0x22 # q @ rest) k (q @ rest) self"
    by (rule parse_loop_step)
       (simp_all add: switch_ps_def deref_def is_eol_def is_quote_def ptr_eq_def)
  also have "\<dots> = parse_loop sv (Suc (Suc (len + length d + length k)) + length q)
                      quoted_value_ps (CHR 0x22 # q @ rest) k rest self"
    by (rule quoted_run) (use assms in \<open>simp add: quoted_body_def\<close>)
  finally show ?thesis by simp
qed

lemma quoted_free_close:
  assumes "quoted_body q" "len + 1 + length q < max_length"
  shows "parse_loop sv len none_ps ts [] (CHR 0x22 # q @ CHR 0x22 # rest) self =
         parse_loop sv (len + length q + 2) none_ps (CHR 0x22 # q @ CHR 0x22 # rest) [] rest
           (emplace_back self q)"
  using scan_quoted_free [OF assms(1), of sv len ts "CHR 0x22 # rest" self] assms(2)
  by (simp add: parse_loop_Cons switch_ps_def deref_def is_quote_def is_eol_def view_def
      ptr_inc_def)

lemma quoted_free_end:
  assumes "quoted_body q" "len + 1 + length q < max_length"
  shows "parse_loop sv len none_ps ts [] (CHR 0x22 # q) self = emplace_back self q"
  using scan_quoted_free [OF assms(1), of sv len ts "[]" self] assms(2)
  by (simp add: parse_loop_Nil switch_ps_def trailing_def deref_def is_quote_def view_def
      ptr_inc_def)

lemma quoted_free_bound:
  assumes "quoted_body q" "max_length \<le> len + 1 + length q"
  shows "parse_loop sv len none_ps ts [] (CHR 0x22 # q @ rest) self = self"
  using scan_quoted_free [OF assms(1), of sv len ts rest self] assms(2)
  by (simp add: parse_loop_bound)

lemma quoted_keyed_close:
  assumes "dashes d" "well_formed_key k" "quoted_body q"
    and "len + length d + length k + 2 + length q < max_length"
  shows "parse_loop sv len none_ps ts [] (d @ k @ ''='' @ CHR 0x22 # q @ CHR 0x22 # rest) self =
         parse_loop sv (len + length d + length k + length q + 3) none_ps
           (CHR 0x22 # q @ CHR 0x22 # rest) [] rest (opts_assign self k q)"
proof -
  have "k \<noteq> []" using assms(2) by (simp add: well_formed_key_def)
  then show ?thesis
    using scan_quoted_keyed [OF assms(1-3), of sv len ts "CHR 0x22 # rest" self] assms(4)
    by (simp add: parse_loop_Cons switch_ps_def deref_def is_quote_def is_eol_def view_def
        ptr_inc_def numeral_3_eq_3)
qed

lemma quoted_keyed_end:
  assumes "dashes d" "well_formed_key k" "quoted_body q"
    and "len + length d + length k + 2 + length q < max_length"
  shows "parse_loop sv len none_ps ts [] (d @ k @ ''='' @ CHR 0x22 # q) self =
         opts_assign self k q"
proof -
  have "k \<noteq> []" using assms(2) by (simp add: well_formed_key_def)
  then show ?thesis
    using scan_quoted_keyed [OF assms(1-3), of sv len ts "[]" self] assms(4)
    by (simp add: parse_loop_Nil switch_ps_def trailing_def deref_def is_quote_def view_def
        ptr_inc_def)
qed

lemma quoted_keyed_bound:
  assumes "dashes d" "well_formed_key k" "quoted_body q"
    and "max_length \<le> len + length d + length k + 2 + length q"
  shows "parse_loop sv len none_ps ts [] (d @ k @ ''='' @ CHR 0x22 # q @ rest) self = self"
  using scan_quoted_keyed [OF assms(1-3), of sv len ts rest self] assms(4)
  by (simp add: parse_loop_bound)

section \<open>Token by token\<close>

lemma none_ws:
  assumes "is_whitespace w"
  shows "parse_loop sv len none_ps ts key (w # xs) self =
         parse_loop sv (Suc len) none_ps ts key xs self"
  by (rule parse_loop_step)
     (use assms in \<open>auto simp add: switch_ps_def deref_def is_whitespace_def is_eol_def\<close>)

lemma token_then_end:
  assumes "well_formed_token sv t" "len + length (token_text t) < max_length"
  shows "parse_loop sv len none_ps ts [] (token_text t) self = store self t"
proof (cases t)
  case (Flag d k)
  with assms show ?thesis by (simp add: flag_end)
next
  case (Keyed d k v)
  with assms show ?thesis using keyed_end [of d k sv v len ts self] by simp
next
  case (Keyed_Quoted d k q)
  with assms show ?thesis
    using quoted_keyed_close [of d k q len sv ts "[]" self] by (simp add: none_end)
next
  case (Free v)
  with assms show ?thesis by (simp add: free_end)
next
  case (Quoted q)
  with assms show ?thesis
    using quoted_free_close [of q len sv ts "[]" self] by (simp add: none_end)
qed

lemma token_then_ws:
  assumes "well_formed_token False t" "len + length (token_text t) < max_length"
    and "is_whitespace w"
  shows "\<exists>ts'. parse_loop False len none_ps ts [] (token_text t @ w # rest) self =
           parse_loop False (len + length (token_text t) + 1) none_ps ts' [] rest (store self t)"
proof (cases t)
  case (Flag d k)
  with assms have
    "parse_loop False len none_ps ts [] (token_text t @ w # rest) self =
     parse_loop False (len + length (token_text t) + 1) none_ps (k @ w # rest) [] rest
       (store self t)"
    using flag_ws [of d k len w False ts rest self] by (simp add: add.assoc)
  then show ?thesis by (rule exI)
next
  case (Keyed d k v)
  with assms have
    "parse_loop False len none_ps ts [] (token_text t @ w # rest) self =
     parse_loop False (len + length (token_text t) + 1) none_ps (v @ w # rest) [] rest
       (store self t)"
    using keyed_ws [of d k v len w ts rest self] by (simp add: add.assoc)
  then show ?thesis by (rule exI)
next
  case (Keyed_Quoted d k q)
  with assms have
    "parse_loop False len none_ps ts [] (token_text t @ w # rest) self =
     parse_loop False (len + length (token_text t) + 1) none_ps
       (CHR 0x22 # q @ CHR 0x22 # w # rest) [] rest (store self t)"
    using quoted_keyed_close [of d k q len False ts "w # rest" self]
    by (simp add: none_ws numeral_3_eq_3 add.assoc)
  then show ?thesis by (rule exI)
next
  case (Free v)
  with assms have
    "parse_loop False len none_ps ts [] (token_text t @ w # rest) self =
     parse_loop False (len + length (token_text t) + 1) none_ps (v @ w # rest) [] rest
       (store self t)"
    using free_ws [of v len w ts rest self] by (simp add: add.assoc)
  then show ?thesis by (rule exI)
next
  case (Quoted q)
  with assms have
    "parse_loop False len none_ps ts [] (token_text t @ w # rest) self =
     parse_loop False (len + length (token_text t) + 1) none_ps
       (CHR 0x22 # q @ CHR 0x22 # w # rest) [] rest (store self t)"
    using quoted_free_close [of q len False ts "w # rest" self]
    by (simp add: none_ws add.assoc)
  then show ?thesis by (rule exI)
qed

lemma parse_loop_command_line:
  assumes "separated items" "len + length (command_line items) < max_length"
  shows "parse_loop False len none_ps ts [] (command_line items) self =
         foldl store self (tokens items)"
  using assms
proof (induction items arbitrary: len ts self rule: separated.induct)
  case 1
  then show ?case by (simp add: none_end)
next
  case (2 w xs)
  then show ?case by (simp add: none_ws)
next
  case (3 t)
  then show ?case by (simp add: token_then_end)
next
  case (4 t w xs)
  then have t: "well_formed_token False t" "len + length (token_text t) < max_length"
    and w: "is_whitespace w" and xs: "separated xs"
    and l: "len + length (token_text t) + 1 + length (command_line xs) < max_length"
    by simp_all
  from token_then_ws [OF t w, of ts "command_line xs" self] obtain ts' where
    "parse_loop False len none_ps ts [] (token_text t @ w # command_line xs) self =
     parse_loop False (len + length (token_text t) + 1) none_ps ts' [] (command_line xs)
       (store self t)"
    by blast
  also have "\<dots> = foldl store (store self t) (tokens xs)"
    by (rule "4.IH" [OF xs l])
  finally show ?case by simp
next
  case (5 t u xs)
  then show ?case by simp
qed


lemma dangling_end:
  assumes "well_formed_token sv t" "len + length (dangling_text t) < max_length"
  shows "parse_loop sv len none_ps ts [] (dangling_text t) self = store self t"
proof (cases t)
  case (Flag d k)
  with assms show ?thesis by (simp add: flag_end)
next
  case (Keyed d k v)
  with assms show ?thesis using keyed_end [of d k sv v len ts self] by simp
next
  case (Keyed_Quoted d k q)
  with assms show ?thesis using quoted_keyed_end [of d k q len sv ts self] by simp
next
  case (Free v)
  with assms show ?thesis by (simp add: free_end)
next
  case (Quoted q)
  with assms show ?thesis by (simp add: quoted_free_end)
qed

lemma dangling_bound:
  assumes "well_formed_token sv t" "max_length \<le> len + length (dangling_text t)"
  shows "parse_loop sv len none_ps ts [] (dangling_text t @ rest) self = self"
proof (cases t)
  case (Flag d k)
  with assms show ?thesis by (simp add: flag_bound)
next
  case (Keyed d k v)
  with assms show ?thesis using keyed_bound [of d k sv v len ts rest self] by simp
next
  case (Keyed_Quoted d k q)
  with assms show ?thesis using quoted_keyed_bound [of d k q len sv ts rest self] by simp
next
  case (Free v)
  with assms show ?thesis by (simp add: free_bound)
next
  case (Quoted q)
  with assms show ?thesis by (simp add: quoted_free_bound)
qed

lemma parse_loop_command_line_then:
  assumes "separated items" "ends_with_whitespace items"
    and "len + length (command_line items) \<le> max_length"
  shows "\<exists>ts'. parse_loop False len none_ps ts [] (command_line items @ rest) self =
           parse_loop False (len + length (command_line items)) none_ps ts' [] rest
             (foldl store self (tokens items))"
  using assms
proof (induction items arbitrary: len ts self rule: separated.induct)
  case 1
  show ?case by (rule exI [of _ ts]) simp
next
  case (2 w xs)
  then have w: "is_whitespace w" and xs: "separated xs" "ends_with_whitespace xs"
    and l: "Suc len + length (command_line xs) \<le> max_length"
    by (cases xs; simp)+
  from "2.IH" [OF xs l, of ts self] show ?case
    by (simp add: none_ws [OF w])
next
  case (3 t)
  then show ?case by simp
next
  case (4 t w xs)
  then have t: "well_formed_token False t" "len + length (token_text t) < max_length"
    and w: "is_whitespace w" and xs: "separated xs" "ends_with_whitespace xs"
    and l: "len + length (token_text t) + 1 + length (command_line xs) \<le> max_length"
    by (cases xs; simp)+
  from token_then_ws [OF t w, of ts "command_line xs @ rest" self] obtain ts' where
    a: "parse_loop False len none_ps ts [] (token_text t @ w # command_line xs @ rest) self =
     parse_loop False (len + length (token_text t) + 1) none_ps ts' [] (command_line xs @ rest)
       (store self t)"
    by blast
  from "4.IH" [OF xs l, of ts' "store self t"] obtain ts'' where
    b: "parse_loop False (len + length (token_text t) + 1) none_ps ts' []
       (command_line xs @ rest) (store self t) =
     parse_loop False (len + length (token_text t) + 1 + length (command_line xs)) none_ps ts'' []
       rest (foldl store (store self t) (tokens xs))"
    by blast
  show ?case
    using a b by (intro exI [of _ ts'']) (simp add: add.assoc)
next
  case (5 t u xs)
  then show ?case by simp
qed

lemma foldl_store_keeps:
  assumes "opts self key = Some v" "\<forall>u\<in>set post. \<not> gives_value key u"
  shows "opts (foldl store self post) key = Some v"
  using assms
proof (induction post arbitrary: self)
  case Nil
  then show ?case by simp
next
  case (Cons u post)
  from Cons.prems have "opts (store self u) key = Some v"
    by (cases u) (auto simp: opts_subscript_def opts_assign_def emplace_back_def
        split: option.splits)
  with Cons show ?case by simp
qed

lemma store_gives_value:
  "t = Keyed d k v \<or> t = Keyed_Quoted d k v \<Longrightarrow> opts (store self t) k = Some v"
  by (auto simp: opts_assign_def)

lemma last_value_stored:
  assumes "toks = pre @ t # post" "t = Keyed d k v \<or> t = Keyed_Quoted d k v"
    and "\<forall>u\<in>set post. \<not> gives_value k u"
  shows "opts (foldl store self toks) k = Some v"
  using assms by (simp add: foldl_store_keeps store_gives_value)

section \<open>Whole inputs\<close>

lemma foldl_argv:
  "foldl (\<lambda>self i. f ((prog # xs) ! i) self) e [1..<Suc (length xs)] =
   foldl (\<lambda>self s. f s self) e xs"
proof -
  have "[1..<Suc (length xs)] = map Suc [0..<length xs]"
    by (simp add: map_Suc_upt)
  then have "foldl (\<lambda>self i. f ((prog # xs) ! i) self) e [1..<Suc (length xs)] =
             foldl (\<lambda>self i. f (xs ! i) self) e [0..<length xs]"
    by (simp add: foldl_map)
  also have "\<dots> = foldl (\<lambda>self s. f s self) e (map ((!) xs) [0..<length xs])"
    by (simp add: foldl_map)
  also have "\<dots> = foldl (\<lambda>self s. f s self) e xs"
    by (simp add: map_nth)
  finally show ?thesis .
qed

lemma parse_elements:
  assumes "\<forall>t\<in>set toks. well_formed_token True t \<and> length (token_text t) < max_length"
  shows "foldl (\<lambda>self s. parse s True self) self (map token_text toks) = foldl store self toks"
  using assms
proof (induction toks arbitrary: self)
  case Nil
  then show ?case by simp
next
  case (Cons t toks)
  then have "parse (token_text t) True self = store self t"
    using token_then_end [of True t 0 "token_text t" self] by (simp add: parse_def)
  with Cons show ?case by simp
qed

lemma options_argv_tokens:
  assumes "\<forall>t\<in>set toks. well_formed_token True t \<and> length (token_text t) < max_length"
  shows "options_argv (Suc (length toks)) (prog # map token_text toks) =
         foldl store empty_options toks"
  using foldl_argv [of "\<lambda>s self. parse s True self" prog "map token_text toks" empty_options]
    parse_elements [OF assms, of empty_options]
  by (simp add: options_argv_def)

lemma parse_command_line:
  assumes "separated items" "length (command_line items) < max_length"
  shows "parse (command_line items) False self = foldl store self (tokens items)"
  using parse_loop_command_line [OF assms(1), of 0 "command_line items" self] assms(2)
  by (simp add: parse_def)







lemma tokens_mem_iff: "t \<in> set (tokens items) \<longleftrightarrow> Tok t \<in> set items"
  by (induction items rule: tokens.induct) auto


lemma parse_dangling:
  assumes "separated items" and "ends_with_whitespace items"
    and "single_value \<longrightarrow> items = []"
    and "well_formed_token single_value t"
    and "length (command_line items) < max_length"
  shows "(length (command_line items @ dangling_text t) < max_length \<longrightarrow>
            parse (command_line items @ dangling_text t) single_value self =
              store (foldl store self (tokens items)) t) \<and>
         (max_length \<le> length (command_line items @ dangling_text t) \<longrightarrow>
            parse (command_line items @ dangling_text t @ rest) single_value self =
              foldl store self (tokens items))"
proof (cases single_value)
  case True
  with assms(3) have items: "items = []" by simp
  from assms(4) show ?thesis
    by (simp add: items parse_def dangling_end dangling_bound)
next
  case False
  have le: "0 + length (command_line items) \<le> max_length"
    using assms(5) by simp
  show ?thesis
  proof (intro conjI impI)
    assume l: "length (command_line items @ dangling_text t) < max_length"
    from parse_loop_command_line_then [OF assms(1,2) le, of "command_line items @ dangling_text t"
        "dangling_text t" self]
    obtain ts' where
      "parse (command_line items @ dangling_text t) False self =
       parse_loop False (length (command_line items)) none_ps ts' [] (dangling_text t)
         (foldl store self (tokens items))"
      by (auto simp: parse_def)
    also have "\<dots> = store (foldl store self (tokens items)) t"
      using assms(4) l False by (simp add: dangling_end)
    finally show "parse (command_line items @ dangling_text t) single_value self =
                  store (foldl store self (tokens items)) t"
      using False by simp
  next
    assume l: "max_length \<le> length (command_line items @ dangling_text t)"
    from parse_loop_command_line_then [OF assms(1,2) le,
        of "command_line items @ dangling_text t @ rest" "dangling_text t @ rest" self]
    obtain ts' where
      "parse (command_line items @ dangling_text t @ rest) False self =
       parse_loop False (length (command_line items)) none_ps ts' [] (dangling_text t @ rest)
         (foldl store self (tokens items))"
      by (auto simp: parse_def)
    also have "\<dots> = foldl store self (tokens items)"
      using assms(4) l False by (simp add: dangling_bound)
    finally show "parse (command_line items @ dangling_text t @ rest) single_value self =
                  foldl store self (tokens items)"
      using False by simp
  qed
qed

section \<open>Evaluation rules\<close>

lemmas eval_parse =
  options_cmd_line_def options_argv_def parse_def parse_loop_Cons parse_loop_Nil switch_ps_def
  trailing_def deref_def is_eol_def is_whitespace_def is_dash_def is_quote_def is_equal_sign_def
  ptr_less_def ptr_eq_def ptr_inc_def view_def opts_subscript_def opts_assign_def emplace_back_def
  empty_options_def max_length_def

lemmas eval_get =
  has_opt_def find_opt_def get_string_def get_string_default_def get_required_string_def
  get_bool_def true_values_def false_values_def arg_def arg_count_def

lemmas eval_get_int =
  get_int_def get_int_default_def from_chars_def is_digit_def decimal_def digit_value_def
  int_min_def int_max_def

lemmas eval_strip =
  strip_quotes_def sv_begin_def sv_end_def sv_content_def sub_range_def in_view_def mem_of_def
  view_of_def

lemmas eval_shapes =
  dashes_def well_formed_key_def key_char_def unquoted_value_def free_value_def quoted_body_def
  is_eol_def is_whitespace_def is_dash_def is_quote_def is_equal_sign_def max_length_def

section \<open>Reading an integer prefix\<close>

lemma takeWhile_digits:
  assumes "\<forall>d\<in>set digits. is_digit d" "rest = [] \<or> \<not> is_digit (hd rest)"
  shows "takeWhile is_digit (digits @ rest) = digits"
  using assms by (cases rest) (auto simp: takeWhile_append2 takeWhile_append1)

lemma is_digit_not_minus: "is_digit d \<Longrightarrow> d \<noteq> CHR ''-''"
  by (auto simp: is_digit_def)

lemma from_chars_ok:
  "(from_chars s val = (r, n) \<and> ec r = errc_none) \<longleftrightarrow>
   (\<exists>sign digits rest.
      s = sign @ digits @ rest \<and> (sign = [] \<or> sign = ''-'') \<and> digits \<noteq> [] \<and>
      (\<forall>d\<in>set digits. is_digit d) \<and> (rest = [] \<or> \<not> is_digit (hd rest)) \<and>
      n = (if sign = ''-'' then - decimal digits else decimal digits) \<and>
      int_min \<le> n \<and> n \<le> int_max \<and> r = \<lparr>ptr = rest, ec = errc_none\<rparr>)"
  (is "?L \<longleftrightarrow> ?R")
proof
  assume L: ?L
  define negative where "negative = (s \<noteq> [] \<and> hd s = CHR ''-'')"
  define body where "body = (if negative then tl s else s)"
  define sign where "sign = (if negative then ''-'' else [])"
  have s: "s = sign @ takeWhile is_digit body @ dropWhile is_digit body"
    by (cases s) (auto simp: sign_def body_def negative_def)
  have hdrest: "dropWhile is_digit body = [] \<or> \<not> is_digit (hd (dropWhile is_digit body))"
    using hd_dropWhile [of is_digit body] by blast
  have ds: "\<forall>d\<in>set (takeWhile is_digit body). is_digit d"
    by (auto dest: set_takeWhileD)
  from L have "takeWhile is_digit body \<noteq> []"
    and "n = (if sign = ''-'' then - decimal (takeWhile is_digit body)
              else decimal (takeWhile is_digit body))"
    and "int_min \<le> n" "n \<le> int_max" "r = \<lparr>ptr = dropWhile is_digit body, ec = errc_none\<rparr>"
    by (auto simp: from_chars_def Let_def negative_def body_def sign_def split: if_splits)
  with s hdrest ds show ?R
    by (intro exI [of _ sign] exI [of _ "takeWhile is_digit body"]
        exI [of _ "dropWhile is_digit body"]) (auto simp: sign_def)
next
  assume ?R
  then obtain sign digits rest where
    s: "s = sign @ digits @ rest" and sign: "sign = [] \<or> sign = ''-''" and
    ne: "digits \<noteq> []" and ds: "\<forall>d\<in>set digits. is_digit d" and
    rest: "rest = [] \<or> \<not> is_digit (hd rest)" and
    n: "n = (if sign = ''-'' then - decimal digits else decimal digits)" and
    range: "int_min \<le> n" "n \<le> int_max" and r: "r = \<lparr>ptr = rest, ec = errc_none\<rparr>"
    by blast
  have tw: "takeWhile is_digit (digits @ rest) = digits"
    by (rule takeWhile_digits [OF ds rest])
  have dw: "dropWhile is_digit (digits @ rest) = rest"
    using takeWhile_dropWhile_id [of is_digit "digits @ rest"] tw by simp
  from ne ds have hd: "hd digits \<noteq> CHR ''-''"
    by (cases digits) (auto dest: is_digit_not_minus)
  from sign show ?L
  proof
    assume "sign = []"
    with s ne hd tw dw n range r show ?L
      by (cases digits) (auto simp: from_chars_def Let_def)
  next
    assume "sign = ''-''"
    with s ne tw dw n range r show ?L
      by (auto simp: from_chars_def Let_def)
  qed
qed

section \<open>The accessors\<close>

text \<open>
  Claim C1, as amended. \<^verbatim>\<open>get_int(key)\<close> returns an integer \<open>n\<close> exactly when the key is
  present and its value starts with a base-10 integer: an optional minus sign (no plus sign),
  then a non-empty run of digits taken as long as digits follow, whose number \<open>n\<close> fits
  \<^verbatim>\<open>int\<close>. Whatever follows the digits is ignored. In every other case (absent key,
  no integer at the start of the value, number out of range) the result is not-found, and
  the overload with a default yields the default exactly then.
\<close>

theorem get_int_integer_prefix:
  "(get_int self key = Some n \<longleftrightarrow>
      (\<exists>sign digits rest.
         opts self key = Some (sign @ digits @ rest) \<and> (sign = [] \<or> sign = ''-'') \<and>
         digits \<noteq> [] \<and> (\<forall>d\<in>set digits. is_digit d) \<and>
         (rest = [] \<or> \<not> is_digit (hd rest)) \<and>
         n = (if sign = ''-'' then - decimal digits else decimal digits) \<and>
         int_min \<le> n \<and> n \<le> int_max)) \<and>
   get_int_default self key default_value =
     (case get_int self key of None \<Rightarrow> default_value | Some v \<Rightarrow> v)"
proof -
  have "get_int self key = Some n \<longleftrightarrow>
        (\<exists>s r. opts self key = Some s \<and> from_chars s 0 = (r, n) \<and> ec r = errc_none)"
    by (auto simp: get_int_def get_string_def find_opt_def split: option.splits prod.splits)
  also have "\<dots> \<longleftrightarrow>
      (\<exists>sign digits rest.
         opts self key = Some (sign @ digits @ rest) \<and> (sign = [] \<or> sign = ''-'') \<and>
         digits \<noteq> [] \<and> (\<forall>d\<in>set digits. is_digit d) \<and>
         (rest = [] \<or> \<not> is_digit (hd rest)) \<and>
         n = (if sign = ''-'' then - decimal digits else decimal digits) \<and>
         int_min \<le> n \<and> n \<le> int_max)"
    unfolding from_chars_ok by blast
  finally show ?thesis by (simp add: get_int_default_def)
qed

text \<open>
  The theorem at the value \<^verbatim>\<open>-7x\<close>, an integer followed by other content.
\<close>

theorem get_int_integer_prefix_witness:
  "opts (options_cmd_line ''--t=-7x'') ''t'' = Some (''-'' @ ''7'' @ ''x'') \<and>
   is_digit CHR ''7'' \<and> \<not> is_digit (hd ''x'') \<and>
   get_int (options_cmd_line ''--t=-7x'') ''t'' = Some (- 7) \<and>
   get_int_default (options_cmd_line ''--t=-7x'') ''t'' 5 = - 7"
proof -
  let ?o = "options_cmd_line ''--t=-7x''"
  have t: "opts ?o ''t'' = Some (''-'' @ ''7'' @ ''x'')" by (simp add: eval_parse)
  have dg: "\<forall>d\<in>set ''7''. is_digit d" "\<not> is_digit (hd ''x'')"
    by (simp_all add: is_digit_def)
  have dec: "- 7 = - decimal ''7''" "int_min \<le> - 7" "- 7 \<le> int_max"
    by (simp_all add: decimal_def digit_value_def int_min_def int_max_def)
  have ex: "\<exists>sign digits rest.
          opts ?o ''t'' = Some (sign @ digits @ rest) \<and> (sign = [] \<or> sign = ''-'') \<and>
          digits \<noteq> [] \<and> (\<forall>d\<in>set digits. is_digit d) \<and>
          (rest = [] \<or> \<not> is_digit (hd rest)) \<and>
          - 7 = (if sign = ''-'' then - decimal digits else decimal digits) \<and>
          int_min \<le> - 7 \<and> - 7 \<le> int_max"
    apply (rule exI [of _ "''-''"])
    apply (rule exI [of _ "''7''"])
    apply (rule exI [of _ "''x''"])
    using t dg dec apply simp
    done
  have gt: "get_int ?o ''t'' = Some (- 7)"
    by (rule iffD2 [OF conjunct1 [OF get_int_integer_prefix [of ?o "''t''" "- 7" 0]] ex])
  have gd: "get_int_default ?o ''t'' 5 = - 7"
    using conjunct2 [OF get_int_integer_prefix [of ?o "''t''" 0 5]] gt by simp
  from t dg gt gd show ?thesis by simp
qed

text \<open>
  The claim as written fails at the value \<^verbatim>\<open>42abc\<close>: the call checks only the error
  code of \<^verbatim>\<open>std::from_chars\<close>, not where the conversion stopped, and returns 42.
\<close>

theorem get_int_trailing_content_counterexample:
  "get_string (options_cmd_line ''--t=42abc'') ''t'' = Some ''42abc'' \<and>
   get_int (options_cmd_line ''--t=42abc'') ''t'' = Some 42 \<and>
   get_int (options_cmd_line ''--t=42abc'') ''t'' \<noteq> None \<and>
   get_int_default (options_cmd_line ''--t=42abc'') ''t'' 7 = 42"
proof -
  have "opts (options_cmd_line ''--t=42abc'') ''t'' = Some ''42abc''"
    by (simp add: eval_parse)
  then show ?thesis
    by (simp add: eval_get eval_get_int)
qed

text \<open>
  Claim C5. \<^verbatim>\<open>get_bool(key, default_value)\<close> returns the default when the key is absent
  and true when the key is present with an empty value. For a present key with a non-empty
  value it returns true exactly for the eight literals of the true set, false exactly for
  the eight literals of the false set (compared character by character, so case matters),
  and throws \<^verbatim>\<open>std::invalid_argument\<close> exactly for every other value.
\<close>

theorem get_bool_literals:
  "(opts self key = None \<longrightarrow> get_bool self key default_value = Inr default_value) \<and>
   (opts self key = Some [] \<longrightarrow> get_bool self key default_value = Inr True) \<and>
   (\<forall>v. opts self key = Some v \<and> v \<noteq> [] \<longrightarrow>
      (get_bool self key default_value = Inr True \<longleftrightarrow>
         v \<in> {''TRUE'', ''true'', ''T'', ''YES'', ''yes'', ''Y'', ''y'', ''1''}) \<and>
      (get_bool self key default_value = Inr False \<longleftrightarrow>
         v \<in> {''FALSE'', ''false'', ''F'', ''NO'', ''no'', ''N'', ''n'', ''0''}) \<and>
      (get_bool self key default_value = Inl invalid_argument \<longleftrightarrow>
         v \<notin> {''TRUE'', ''true'', ''T'', ''YES'', ''yes'', ''Y'', ''y'', ''1'',
               ''FALSE'', ''false'', ''F'', ''NO'', ''no'', ''N'', ''n'', ''0''}))"
  by (auto simp: get_bool_def get_string_def find_opt_def true_values_def false_values_def)

text \<open>
  The theorem at an absent key (with both defaults), a bare flag, a true literal, a false
  literal and an unrecognised literal.
\<close>

theorem get_bool_literals_witness:
  "opts (options_cmd_line ''--a --b=1 --c=N --d=2'') ''x'' = None \<and>
   get_bool (options_cmd_line ''--a --b=1 --c=N --d=2'') ''x'' True = Inr True \<and>
   get_bool (options_cmd_line ''--a --b=1 --c=N --d=2'') ''x'' False = Inr False \<and>
   opts (options_cmd_line ''--a --b=1 --c=N --d=2'') ''a'' = Some [] \<and>
   get_bool (options_cmd_line ''--a --b=1 --c=N --d=2'') ''a'' False = Inr True \<and>
   opts (options_cmd_line ''--a --b=1 --c=N --d=2'') ''b'' = Some ''1'' \<and>
   get_bool (options_cmd_line ''--a --b=1 --c=N --d=2'') ''b'' False = Inr True \<and>
   opts (options_cmd_line ''--a --b=1 --c=N --d=2'') ''c'' = Some ''N'' \<and>
   get_bool (options_cmd_line ''--a --b=1 --c=N --d=2'') ''c'' True = Inr False \<and>
   opts (options_cmd_line ''--a --b=1 --c=N --d=2'') ''d'' = Some ''2'' \<and>
   get_bool (options_cmd_line ''--a --b=1 --c=N --d=2'') ''d'' True = Inl invalid_argument"
proof -
  let ?o = "options_cmd_line ''--a --b=1 --c=N --d=2''"
  have x: "opts ?o ''x'' = None" by (simp add: eval_parse)
  have a: "opts ?o ''a'' = Some []" by (simp add: eval_parse)
  have b: "opts ?o ''b'' = Some ''1''" by (simp add: eval_parse)
  have c: "opts ?o ''c'' = Some ''N''" by (simp add: eval_parse)
  have d: "opts ?o ''d'' = Some ''2''" by (simp add: eval_parse)
  have "get_bool ?o ''x'' True = Inr True" "get_bool ?o ''x'' False = Inr False"
    using x get_bool_literals [of ?o "''x''" True] get_bool_literals [of ?o "''x''" False]
    by simp_all
  moreover have "get_bool ?o ''a'' False = Inr True"
    using a get_bool_literals [of ?o "''a''" False] by simp
  moreover have "get_bool ?o ''b'' False = Inr True"
    using b get_bool_literals [of ?o "''b''" False] by simp
  moreover have "get_bool ?o ''c'' True = Inr False"
    using c get_bool_literals [of ?o "''c''" True] by simp
  moreover have "get_bool ?o ''d'' True = Inl invalid_argument"
    using d get_bool_literals [of ?o "''d''" True] by simp
  ultimately show ?thesis using x a b c d by simp
qed

text \<open>
  Claim C9. \<^verbatim>\<open>get_required_string(key)\<close> returns the stored value whenever the key is
  present, also when the value is empty, and throws \<^verbatim>\<open>std::out_of_range\<close> exactly when
  the key is absent. The member is \<^verbatim>\<open>const\<close>: it maps the parsed state to a result and
  has no state to return.
\<close>

theorem get_required_string_present_or_missing:
  "(\<forall>v. opts self key = Some v \<longrightarrow> get_required_string self key = Inr v) \<and>
   (get_required_string self key = Inl out_of_range \<longleftrightarrow> opts self key = None) \<and>
   ((\<exists>e. get_required_string self key = Inl e) \<longleftrightarrow> opts self key = None)"
  by (auto simp: get_required_string_def get_string_def find_opt_def split: option.splits)

text \<open>
  The theorem at a key with a value, a key with an empty value and an absent key.
\<close>

theorem get_required_string_present_or_missing_witness:
  "opts (options_cmd_line ''--t=x --u'') ''t'' = Some ''x'' \<and>
   get_required_string (options_cmd_line ''--t=x --u'') ''t'' = Inr ''x'' \<and>
   opts (options_cmd_line ''--t=x --u'') ''u'' = Some [] \<and>
   get_required_string (options_cmd_line ''--t=x --u'') ''u'' = Inr [] \<and>
   opts (options_cmd_line ''--t=x --u'') ''nonexistent'' = None \<and>
   get_required_string (options_cmd_line ''--t=x --u'') ''nonexistent'' = Inl out_of_range"
proof -
  let ?o = "options_cmd_line ''--t=x --u''"
  have t: "opts ?o ''t'' = Some ''x''" by (simp add: eval_parse)
  have u: "opts ?o ''u'' = Some []" by (simp add: eval_parse)
  have n: "opts ?o ''nonexistent'' = None" by (simp add: eval_parse)
  show ?thesis
    using t u n get_required_string_present_or_missing [of ?o "''t''"]
      get_required_string_present_or_missing [of ?o "''u''"]
      get_required_string_present_or_missing [of ?o "''nonexistent''"]
    by simp
qed

section \<open>The tokenizer\<close>




text \<open>
  Claim C7. The argv array \<^verbatim>\<open>prog\<close>, \<^verbatim>\<open>--t=42\<close>, \<^verbatim>\<open>--u\<close>, \<^verbatim>\<open>"param param"\<close>,
  \<^verbatim>\<open>param param\<close>, parsed by the constructor from \<^verbatim>\<open>(argc, argv)\<close>, gives exactly two
  positional arguments, the integer 42 for \<open>t\<close> and the option \<open>u\<close> present. In
  single-value mode whitespace inside an element does not end the value: an element that
  is a free-standing unquoted value is stored whole as one positional argument, and an
  element \<^verbatim>\<open>-key=value\<close> stores the whole rest of the element after the equal sign,
  whitespace included, as the value of the key. The constructor stores every argv array of
  well-formed tokens, one per element after the first, token by token.
\<close>

theorem argv_single_value:
  "arg_count (options_argv 5 [''prog'', ''--t=42'', ''--u'',
      CHR 0x22 # ''param param'' @ [CHR 0x22], ''param param'']) = 2 \<and>
   args (options_argv 5 [''prog'', ''--t=42'', ''--u'',
      CHR 0x22 # ''param param'' @ [CHR 0x22], ''param param'']) =
     [''param param'', ''param param''] \<and>
   get_int (options_argv 5 [''prog'', ''--t=42'', ''--u'',
      CHR 0x22 # ''param param'' @ [CHR 0x22], ''param param'']) ''t'' = Some 42 \<and>
   has_opt (options_argv 5 [''prog'', ''--t=42'', ''--u'',
      CHR 0x22 # ''param param'' @ [CHR 0x22], ''param param'']) ''u'' \<and>
   (\<forall>v self. free_value True v \<and> length v < max_length \<longrightarrow>
      parse v True self = emplace_back self v) \<and>
   (\<forall>d k v self.
      dashes d \<and> well_formed_key k \<and> unquoted_value True v \<and>
      length (d @ k @ ''='' @ v) < max_length \<longrightarrow>
        parse (d @ k @ ''='' @ v) True self = opts_assign self k v) \<and>
   (\<forall>toks prog.
      (\<forall>t\<in>set toks. well_formed_token True t \<and> length (token_text t) < max_length) \<longrightarrow>
        options_argv (Suc (length toks)) (prog # map token_text toks) =
          foldl store empty_options toks)"
proof -
  let ?o = "options_argv 5 [''prog'', ''--t=42'', ''--u'',
      CHR 0x22 # ''param param'' @ [CHR 0x22], ''param param'']"
  have a: "args ?o = [''param param'', ''param param'']"
    by (simp add: eval_parse upt_rec)
  have t: "opts ?o ''t'' = Some ''42''"
    by (simp add: eval_parse upt_rec)
  have u: "opts ?o ''u'' = Some []"
    by (simp add: eval_parse upt_rec)
  have g: "parse v True self = emplace_back self v"
    if "free_value True v" "length v < max_length" for v self
    using free_end [of True v 0 v self] that by (simp add: parse_def)
  have h: "parse (d @ k @ ''='' @ v) True self = opts_assign self k v"
    if "dashes d" "well_formed_key k" "unquoted_value True v"
      "length (d @ k @ ''='' @ v) < max_length" for d k v self
    using keyed_end [OF that(1-3), of 0 "d @ k @ ''='' @ v" self] that(4)
    by (simp add: parse_def)
  have i: "options_argv (Suc (length toks)) (prog # map token_text toks) =
           foldl store empty_options toks"
    if "\<forall>t\<in>set toks. well_formed_token True t \<and> length (token_text t) < max_length"
    for toks prog
    using that by (rule options_argv_tokens)
  have 1: "arg_count ?o = 2" "get_int ?o ''t'' = Some 42" "has_opt ?o ''u''"
    using a t u by (simp_all add: eval_get eval_get_int)
  from 1 a g h i show ?thesis by blast
qed

text \<open>
  The theorem at the element \<^verbatim>\<open>param param\<close>, at the element \<^verbatim>\<open>--t=a b\<close> and at the
  argv array of \<^verbatim>\<open>-t=a b\<close> and \<^verbatim>\<open>c d\<close>.
\<close>

theorem argv_single_value_witness:
  "free_value True ''param param'' \<and> length ''param param'' < max_length \<and>
   parse ''param param'' True empty_options = emplace_back empty_options ''param param'' \<and>
   args (parse ''param param'' True empty_options) = [''param param''] \<and>
   unquoted_value True ''a b'' \<and>
   get_string (parse ''--t=a b'' True empty_options) ''t'' = Some ''a b'' \<and>
   args (parse ''--t=a b'' True empty_options) = [] \<and>
   get_string (options_argv 3 [''prog'', ''-t=a b'', ''c d'']) ''t'' = Some ''a b'' \<and>
   args (options_argv 3 [''prog'', ''-t=a b'', ''c d'']) = [''c d'']"
proof -
  have f: "free_value True ''param param''"
    by (simp add: free_value_def unquoted_value_def is_whitespace_def is_dash_def is_quote_def
        is_eol_def)
  have l: "length ''param param'' < max_length" by (simp add: max_length_def)
  from argv_single_value f l
  have 1: "parse ''param param'' True empty_options =
           emplace_back empty_options ''param param''"
    by blast
  have k: "dashes ''--'' \<and> well_formed_key ''t'' \<and> unquoted_value True ''a b'' \<and>
           length (''--'' @ ''t'' @ ''='' @ ''a b'') < max_length"
    by (simp add: eval_shapes)
  from argv_single_value k
  have 2: "parse (''--'' @ ''t'' @ ''='' @ ''a b'') True empty_options =
           opts_assign empty_options ''t'' ''a b''"
    by blast
  let ?toks = "[Keyed ''-'' ''t'' ''a b'', Free ''c d'']"
  have w: "\<forall>t\<in>set ?toks. well_formed_token True t \<and> length (token_text t) < max_length"
    by (simp add: eval_shapes)
  from argv_single_value w
  have 3: "options_argv (Suc (length ?toks)) (''prog'' # map token_text ?toks) =
           foldl store empty_options ?toks"
    by blast
  have u: "unquoted_value True ''a b''" using k by simp
  from 2 have b2: "get_string (parse ''--t=a b'' True empty_options) ''t'' = Some ''a b''"
    "args (parse ''--t=a b'' True empty_options) = []"
    by (simp_all add: get_string_def find_opt_def opts_assign_def empty_options_def)
  from 3 have b3: "get_string (options_argv 3 [''prog'', ''-t=a b'', ''c d'']) ''t'' = Some ''a b''"
    "args (options_argv 3 [''prog'', ''-t=a b'', ''c d'']) = [''c d'']"
    by (simp_all add: numeral_3_eq_3 get_string_def find_opt_def opts_assign_def
        emplace_back_def empty_options_def)
  from f l 1 u b2 b3 show ?thesis
    by (simp add: emplace_back_def empty_options_def)
qed

text \<open>
  Claim C3, as amended. Where a key occurs more than once, the stored value is that of the
  last occurrence that has an \<^verbatim>\<open>=value\<close> part (quoted or not): it overwrites every earlier
  occurrence, and occurrences of the key as a bare flag after it leave it as it is, since a
  bare flag only subscripts the map. This holds for a command line of well-formed tokens
  separated by whitespace and for an argv array with one well-formed token per element,
  within the length bound.
\<close>

theorem last_given_value_wins:
  assumes "t = Keyed d k v \<or> t = Keyed_Quoted d k v"
    and "\<forall>u\<in>set post. \<not> gives_value k u"
  shows "(separated items \<and> length (command_line items) < max_length \<and>
          tokens items = pre @ t # post \<longrightarrow>
            get_string (parse (command_line items) False self) k = Some v) \<and>
         ((\<forall>u\<in>set (pre @ t # post).
              well_formed_token True u \<and> length (token_text u) < max_length) \<longrightarrow>
            get_string (options_argv (Suc (length (pre @ t # post)))
              (prog # map token_text (pre @ t # post))) k = Some v)"
proof (intro conjI impI)
  assume a: "separated items \<and> length (command_line items) < max_length \<and>
             tokens items = pre @ t # post"
  then have "parse (command_line items) False self = foldl store self (pre @ t # post)"
    by (simp add: parse_command_line)
  with last_value_stored [OF refl assms, of self pre]
  show "get_string (parse (command_line items) False self) k = Some v"
    by (simp add: get_string_def find_opt_def)
next
  assume "\<forall>u\<in>set (pre @ t # post).
            well_formed_token True u \<and> length (token_text u) < max_length"
  from options_argv_tokens [OF this, of prog] last_value_stored [OF refl assms, of empty_options pre]
  show "get_string (options_argv (Suc (length (pre @ t # post)))
          (prog # map token_text (pre @ t # post))) k = Some v"
    by (simp add: get_string_def find_opt_def)
qed

text \<open>
  The theorem at \<^verbatim>\<open>--k=1 --k\<close> and \<^verbatim>\<open>--k=1 --k=2\<close> as command lines and at the argv
  array of \<^verbatim>\<open>--k=1\<close> and \<^verbatim>\<open>--k\<close>.
\<close>

theorem last_given_value_wins_witness:
  "get_string (parse ''--k=1 --k'' False empty_options) ''k'' = Some ''1'' \<and>
   get_string (parse ''--k=1 --k=2'' False empty_options) ''k'' = Some ''2'' \<and>
   get_string (options_argv 3 [''prog'', ''--k=1'', ''--k'']) ''k'' = Some ''1''"
proof -
  let ?t1 = "Keyed ''--'' ''k'' ''1''" and ?t2 = "Keyed ''--'' ''k'' ''2''"
  let ?f = "Flag ''--'' ''k''"
  have a: "?t1 = Keyed ''--'' ''k'' ''1'' \<or> ?t1 = Keyed_Quoted ''--'' ''k'' ''1''"
    and b: "?t2 = Keyed ''--'' ''k'' ''2'' \<or> ?t2 = Keyed_Quoted ''--'' ''k'' ''2''"
    by simp_all
  have post: "\<forall>u\<in>set [?f]. \<not> gives_value ''k'' u" "\<forall>u\<in>set []. \<not> gives_value ''k'' u"
    by simp_all
  have "get_string (parse (command_line [Tok ?t1, Ws CHR '' '', Tok ?f]) False empty_options)
          ''k'' = Some ''1''"
    using conjunct1 [OF last_given_value_wins [OF a post(1),
          of "[Tok ?t1, Ws CHR '' '', Tok ?f]" "[]" empty_options]]
    by (simp add: eval_shapes)
  moreover
  have "get_string (parse (command_line [Tok ?t1, Ws CHR '' '', Tok ?t2]) False empty_options)
          ''k'' = Some ''2''"
    using conjunct1 [OF last_given_value_wins [OF b post(2),
          of "[Tok ?t1, Ws CHR '' '', Tok ?t2]" "[?t1]" empty_options]]
    by (simp add: eval_shapes)
  moreover
  have "get_string (options_argv (Suc (length ([] @ ?t1 # [?f])))
          (''prog'' # map token_text ([] @ ?t1 # [?f]))) ''k'' = Some ''1''"
    using conjunct2 [OF last_given_value_wins [OF a post(1), of _ "[]" _ "''prog''"]]
    by (simp add: eval_shapes)
  ultimately show ?thesis by (simp add: numeral_3_eq_3)
qed

text \<open>
  The claim as written fails at \<^verbatim>\<open>--k=1 --k\<close>: the later bare flag does not reset the
  value to the empty string.
\<close>

theorem bare_flag_keeps_value_counterexample:
  "get_string (options_cmd_line ''--k=1 --k'') ''k'' = Some ''1'' \<and>
   get_string (options_cmd_line ''--k=1 --k'') ''k'' \<noteq> Some []"
proof -
  have "opts (options_cmd_line ''--k=1 --k'') ''k'' = Some ''1''"
    by (simp add: eval_parse)
  then show ?thesis by (simp add: get_string_def find_opt_def)
qed

text \<open>
  Claim C2, as amended. The trailing-token block runs only at a null terminator. Take a
  command line of whitespace-terminated well-formed tokens, \<open>before\<close> the state they
  leave, followed by one more token that the input ends in. When the terminator is scanned
  within the bound, that token is stored as well: a dangling key is made present, with the
  empty value if the key had no entry and with its earlier value kept otherwise; a
  dangling keyed value (quoted or not, the quote stripped) becomes the value of its key; a
  dangling free-standing value (quoted or not, the quote stripped) is appended to the
  positional arguments. When the scanned length reaches the bound inside or at the end of
  that token, the token is discarded with everything after it and the state is \<open>before\<close>.
  When nothing follows the last whitespace, nothing is added. In single-value mode the
  same holds for the one token of the element.
\<close>

theorem bound_discards_token_in_flight:
  assumes "separated items" and "ends_with_whitespace items"
    and "single_value \<longrightarrow> items = []"
    and "well_formed_token single_value t"
    and "length (command_line items) < max_length"
    and "before = foldl store self (tokens items)"
  shows "(length (command_line items @ dangling_text t) < max_length \<longrightarrow>
            parse (command_line items @ dangling_text t) single_value self = store before t \<and>
            (\<forall>d k. t = Flag d k \<longrightarrow>
               has_opt (parse (command_line items @ dangling_text t) single_value self) k \<and>
               get_string (parse (command_line items @ dangling_text t) single_value self) k =
                 Some (case opts before k of None \<Rightarrow> [] | Some w \<Rightarrow> w) \<and>
               args (parse (command_line items @ dangling_text t) single_value self) =
                 args before) \<and>
            (\<forall>d k v. t = Keyed d k v \<or> t = Keyed_Quoted d k v \<longrightarrow>
               get_string (parse (command_line items @ dangling_text t) single_value self) k =
                 Some v \<and>
               args (parse (command_line items @ dangling_text t) single_value self) =
                 args before) \<and>
            (\<forall>v. t = Free v \<or> t = Quoted v \<longrightarrow>
               args (parse (command_line items @ dangling_text t) single_value self) =
                 args before @ [v] \<and>
               opts (parse (command_line items @ dangling_text t) single_value self) =
                 opts before)) \<and>
         (max_length \<le> length (command_line items @ dangling_text t) \<longrightarrow>
            parse (command_line items @ dangling_text t @ rest) single_value self = before) \<and>
         parse (command_line items) single_value self = before"
proof (intro conjI impI allI)
  note core = parse_dangling [OF assms(1-5), of self rest, folded assms(6)]
  {
    assume l: "length (command_line items @ dangling_text t) < max_length"
    with core
    have p: "parse (command_line items @ dangling_text t) single_value self = store before t"
      by blast
    then show "parse (command_line items @ dangling_text t) single_value self = store before t" .
    {
      fix d k
      assume t: "t = Flag d k"
      show "has_opt (parse (command_line items @ dangling_text t) single_value self) k"
        by (subst p) (simp add: t has_opt_def find_opt_def opts_subscript_def
            split: option.splits)
      show "get_string (parse (command_line items @ dangling_text t) single_value self) k =
              Some (case opts before k of None \<Rightarrow> [] | Some w \<Rightarrow> w)"
        by (subst p) (simp add: t get_string_def find_opt_def opts_subscript_def
            split: option.splits)
      show "args (parse (command_line items @ dangling_text t) single_value self) = args before"
        by (subst p) (simp add: t opts_subscript_def split: option.splits)
    }
    {
      fix d k v
      assume t: "t = Keyed d k v \<or> t = Keyed_Quoted d k v"
      then show "get_string (parse (command_line items @ dangling_text t) single_value self) k =
              Some v"
        by (subst p) (auto simp add: get_string_def find_opt_def opts_assign_def)
      from t
      show "args (parse (command_line items @ dangling_text t) single_value self) = args before"
        by (subst p) (auto simp add: opts_assign_def)
    }
    {
      fix v
      assume t: "t = Free v \<or> t = Quoted v"
      then show "args (parse (command_line items @ dangling_text t) single_value self) =
              args before @ [v]"
        by (subst p) (auto simp add: emplace_back_def)
      from t
      show "opts (parse (command_line items @ dangling_text t) single_value self) = opts before"
        by (subst p) (auto simp add: emplace_back_def)
    }
  }
  {
    assume "max_length \<le> length (command_line items @ dangling_text t)"
    with core
    show "parse (command_line items @ dangling_text t @ rest) single_value self = before"
      by blast
  }
  show "parse (command_line items) single_value self = before"
  proof (cases single_value)
    case True
    with assms(3) have "items = []" by simp
    then show ?thesis by (simp add: assms(6) parse_def none_end)
  next
    case False
    with assms(1,5) show ?thesis by (simp add: assms(6) parse_command_line)
  qed
qed

text \<open>
  The theorem at \<^verbatim>\<open>--t=1\<close> followed by whitespace and then: a value that reaches the
  bound, the value \<^verbatim>\<open>abc\<close>, the dangling key \<^verbatim>\<open>-t\<close> (stored before with a value), the
  dangling key \<^verbatim>\<open>-u\<close>, and nothing.
\<close>

theorem bound_discards_token_in_flight_witness:
  "args (parse (''--t=1 '' @ replicate 4090 (CHR ''a'')) False empty_options) = [] \<and>
   opts (parse (''--t=1 '' @ replicate 4090 (CHR ''a'')) False empty_options) ''t'' = Some ''1'' \<and>
   args (parse ''--t=1 abc'' False empty_options) = [''abc''] \<and>
   opts (parse ''--t=1 abc'' False empty_options) ''t'' = Some ''1'' \<and>
   get_string (parse ''--t=1 -t'' False empty_options) ''t'' = Some ''1'' \<and>
   get_string (parse ''--t=1 -u'' False empty_options) ''u'' = Some [] \<and>
   args (parse ''--t=1 '' False empty_options) = []"
proof -
  let ?items = "[Tok (Keyed ''--'' ''t'' ''1''), Ws CHR '' '']"
  let ?before = "foldl store empty_options (tokens ?items)"
  have items: "separated ?items" "ends_with_whitespace ?items" "False \<longrightarrow> ?items = []"
    "length (command_line ?items) < max_length"
    by (simp_all add: eval_shapes)
  have long: "well_formed_token False (Free (replicate 4090 (CHR ''a'')))"
    and short: "well_formed_token False (Free ''abc'')"
    and ft: "well_formed_token False (Flag ''-'' ''t'')"
    and fu: "well_formed_token False (Flag ''-'' ''u'')"
    by (simp_all add: eval_shapes)
  have b: "args ?before = []" "opts ?before ''t'' = Some ''1''" "opts ?before ''u'' = None"
    by (simp_all add: opts_assign_def empty_options_def)
  have "parse (command_line ?items @ dangling_text (Free (replicate 4090 (CHR ''a''))) @ [])
          False empty_options = ?before"
    using conjunct1 [OF conjunct2 [OF bound_discards_token_in_flight
          [where self = empty_options, OF items(1-3) long items(4) refl, where rest = "[]"]]]
    by (simp add: max_length_def)
  then have 1: "args (parse (''--t=1 '' @ replicate 4090 (CHR ''a'')) False empty_options) = []"
    "opts (parse (''--t=1 '' @ replicate 4090 (CHR ''a'')) False empty_options) ''t'' =
       Some ''1''"
    using b by simp_all
  have "args (parse (command_line ?items @ dangling_text (Free ''abc'')) False empty_options) =
          args ?before @ [''abc''] \<and>
        opts (parse (command_line ?items @ dangling_text (Free ''abc'')) False empty_options) =
          opts ?before"
  proof -
    have "length (command_line ?items @ dangling_text (Free ''abc'')) < max_length"
      by (simp add: max_length_def)
    from mp [OF conjunct1 [OF bound_discards_token_in_flight
          [where self = empty_options, OF items(1-3) short items(4) refl]] this]
    show ?thesis by blast
  qed
  then have 2: "args (parse ''--t=1 abc'' False empty_options) = [''abc'']"
    "opts (parse ''--t=1 abc'' False empty_options) ''t'' = Some ''1''"
    using b by simp_all
  have "get_string (parse (command_line ?items @ dangling_text (Flag ''-'' ''t'')) False
          empty_options) ''t'' =
        Some (case opts ?before ''t'' of None \<Rightarrow> [] | Some w \<Rightarrow> w)"
  proof -
    have "length (command_line ?items @ dangling_text (Flag ''-'' ''t'')) < max_length"
      by (simp add: max_length_def)
    from mp [OF conjunct1 [OF bound_discards_token_in_flight
          [where self = empty_options, OF items(1-3) ft items(4) refl]] this]
    show ?thesis by blast
  qed
  then have 3: "get_string (parse ''--t=1 -t'' False empty_options) ''t'' = Some ''1''"
    using b by simp
  have "get_string (parse (command_line ?items @ dangling_text (Flag ''-'' ''u'')) False
          empty_options) ''u'' =
        Some (case opts ?before ''u'' of None \<Rightarrow> [] | Some w \<Rightarrow> w)"
  proof -
    have "length (command_line ?items @ dangling_text (Flag ''-'' ''u'')) < max_length"
      by (simp add: max_length_def)
    from mp [OF conjunct1 [OF bound_discards_token_in_flight
          [where self = empty_options, OF items(1-3) fu items(4) refl]] this]
    show ?thesis by blast
  qed
  then have 4: "get_string (parse ''--t=1 -u'' False empty_options) ''u'' = Some []"
    using b by simp
  have "parse (command_line ?items) False empty_options = ?before"
    using conjunct2 [OF conjunct2 [OF bound_discards_token_in_flight
          [where self = empty_options, OF items(1-3) short items(4) refl]]] .
  then have 5: "args (parse ''--t=1 '' False empty_options) = []"
    using b by simp
  from 1 2 3 4 5 show ?thesis by simp
qed

text \<open>
  The claim as written fails at a free-standing value of 4096 characters and at a key
  that ends at the bound: neither is stored, while the same tokens one character shorter,
  whose terminator is scanned, are. At the terminator, a dangling key that has a value
  already is not recorded with the empty value (\<^verbatim>\<open>--k=1 --k\<close>).
\<close>

theorem bound_reached_counterexample:
  "args (options_cmd_line (replicate 4096 (CHR ''a''))) = [] \<and>
   args (options_cmd_line (replicate 4095 (CHR ''a''))) = [replicate 4095 (CHR ''a'')] \<and>
   opts (options_cmd_line (''--'' @ replicate 4094 (CHR ''k''))) (replicate 4094 (CHR ''k'')) = None \<and>
   opts (options_cmd_line (''--'' @ replicate 4093 (CHR ''k''))) (replicate 4093 (CHR ''k'')) =
     Some [] \<and>
   opts (options_cmd_line ''--k=1 --k'') ''k'' = Some ''1''"
proof -
  have v6: "free_value False (replicate 4096 (CHR ''a''))"
    and v5: "free_value False (replicate 4095 (CHR ''a''))"
    and k4: "well_formed_key (replicate 4094 (CHR ''k''))"
    and k3: "well_formed_key (replicate 4093 (CHR ''k''))"
    and d: "dashes ''--''"
    by (simp_all add: eval_shapes)
  have "parse (replicate 4096 (CHR ''a'')) False empty_options = empty_options"
    using free_bound [OF v6, of 0 "replicate 4096 (CHR ''a'')" "[]" empty_options]
    by (simp add: parse_def max_length_def)
  moreover
  have "parse (replicate 4095 (CHR ''a'')) False empty_options =
        emplace_back empty_options (replicate 4095 (CHR ''a''))"
    using free_end [OF v5, of 0 "replicate 4095 (CHR ''a'')" empty_options]
    by (simp add: parse_def max_length_def)
  moreover
  have "parse (''--'' @ replicate 4094 (CHR ''k'')) False empty_options = empty_options"
    using flag_bound [OF d k4, of 0 False "''--'' @ replicate 4094 (CHR ''k'')" "[]" empty_options]
    by (simp add: parse_def max_length_def)
  moreover
  have "parse (''--'' @ replicate 4093 (CHR ''k'')) False empty_options =
        opts_subscript empty_options (replicate 4093 (CHR ''k''))"
    using flag_end [OF d k3, of 0 False "''--'' @ replicate 4093 (CHR ''k'')" empty_options]
    by (simp add: parse_def max_length_def)
  moreover
  have "opts (parse ''--k=1 --k'' False empty_options) ''k'' = Some ''1''"
    by (simp add: eval_parse)
  ultimately show ?thesis
    by (simp add: options_cmd_line_def opts_subscript_def emplace_back_def empty_options_def)
qed

section \<open>Empty values\<close>

lemma args_opts_subscript [simp]: "args (opts_subscript self key) = args self"
  by (simp add: opts_subscript_def split: option.splits)

lemma args_opts_assign [simp]: "args (opts_assign self key v) = args self"
  by (simp add: opts_assign_def)

lemma args_emplace_back [simp]: "args (emplace_back self v) = args self @ [v]"
  by (simp add: emplace_back_def)

lemma view_empty_iff:
  "view p q = [] \<longleftrightarrow> \<not> length q < length p"
  "[] = view p q \<longleftrightarrow> \<not> length q < length p"
  by (auto simp: view_def)

lemma switch_ps_unquoted:
  assumes "switch_ps sv ps ts key c self = (ps', ts', key', self')"
    and "\<not> is_quote (deref c)" and "[] \<notin> set (args self)" and "ps \<noteq> quoted_value_ps"
    and "ps = key_ps \<longrightarrow> length c < length ts"
    and "ps = value_ps \<and> key = [] \<longrightarrow> length c < length ts"
  shows "[] \<notin> set (args self') \<and> ps' \<noteq> quoted_value_ps"
  using assms
  by (cases ps) (auto simp: switch_ps_def view_empty_iff split: if_splits)

lemma switch_ps_spans:
  assumes "switch_ps sv ps ts key (x # xs) self = (ps', ts', key', self')"
    and "ps \<noteq> quoted_value_ps"
    and "ps = key_ps \<longrightarrow> length (x # xs) < length ts"
    and "ps = value_ps \<and> key = [] \<longrightarrow> length (x # xs) < length ts"
  shows "(ps' = key_ps \<longrightarrow> length xs < length ts') \<and>
         (ps' = value_ps \<and> key' = [] \<longrightarrow> length xs < length ts')"
  using assms
  by (cases ps) (auto simp: switch_ps_def view_empty_iff ptr_inc_def split: if_splits)

lemma trailing_unquoted:
  assumes "[] \<notin> set (args self)" and "ps \<noteq> quoted_value_ps"
  shows "[] \<notin> set (args (trailing ps ts key c self))"
  using assms by (auto simp: trailing_def view_empty_iff ptr_less_def)

lemma parse_loop_unquoted:
  assumes "CHR 0x22 \<notin> set c" and "[] \<notin> set (args self)" and "ps \<noteq> quoted_value_ps"
    and "ps = key_ps \<longrightarrow> length c < length ts"
    and "ps = value_ps \<and> key = [] \<longrightarrow> length c < length ts"
  shows "[] \<notin> set (args (parse_loop sv len ps ts key c self))"
  using assms
proof (induction c arbitrary: len ps ts key self)
  case Nil
  show ?case
  proof (cases "len < max_length")
    case True
    obtain ps' ts' key' self' where s: "switch_ps sv ps ts key [] self = (ps', ts', key', self')"
      by (cases "switch_ps sv ps ts key [] self") auto
    from switch_ps_unquoted [OF s] Nil.prems
    have "[] \<notin> set (args self') \<and> ps' \<noteq> quoted_value_ps"
      by (simp add: deref_def is_quote_def)
    then show ?thesis
      using True s by (simp add: parse_loop_Nil trailing_unquoted)
  next
    case False
    with Nil.prems show ?thesis by (simp add: parse_loop_bound)
  qed
next
  case (Cons x xs)
  show ?case
  proof (cases "len < max_length")
    case True
    obtain ps' ts' key' self' where
      s: "switch_ps sv ps ts key (x # xs) self = (ps', ts', key', self')"
      by (cases "switch_ps sv ps ts key (x # xs) self") auto
    from Cons.prems have x: "\<not> is_quote (deref (x # xs))" and xs: "CHR 0x22 \<notin> set xs"
      by (auto simp: deref_def is_quote_def)
    from switch_ps_unquoted [OF s x] Cons.prems
    have a: "[] \<notin> set (args self')" "ps' \<noteq> quoted_value_ps" by simp_all
    from switch_ps_spans [OF s] Cons.prems
    have b: "ps' = key_ps \<longrightarrow> length xs < length ts'"
      "ps' = value_ps \<and> key' = [] \<longrightarrow> length xs < length ts'"
      by simp_all
    show ?thesis
    proof (cases "is_eol x")
      case eol: True
      with True s a show ?thesis by (simp add: parse_loop_Cons trailing_unquoted)
    next
      case False
      with True s Cons.IH [OF xs a b] show ?thesis by (simp add: parse_loop_Cons)
    qed
  next
    case False
    with Cons.prems show ?thesis by (simp add: parse_loop_bound)
  qed
qed

lemma separated_tokens_well_formed:
  "separated items \<Longrightarrow> \<forall>t\<in>set (tokens items). well_formed_token False t"
  by (induction items rule: separated.induct) auto

lemma empty_arg_store:
  assumes "well_formed_token sv t"
  shows "[] \<in> set (args (store self t)) \<longleftrightarrow> [] \<in> set (args self) \<or> t = Quoted []"
  using assms by (cases t) (auto simp: free_value_def)

lemma empty_arg_foldl_store:
  assumes "\<forall>t\<in>set toks. well_formed_token sv t"
  shows "[] \<in> set (args (foldl store self toks)) \<longleftrightarrow>
         [] \<in> set (args self) \<or> Quoted [] \<in> set toks"
  using assms
proof (induction toks arbitrary: self)
  case Nil
  then show ?case by simp
next
  case (Cons t toks)
  then have "[] \<in> set (args (foldl store (store self t) toks)) \<longleftrightarrow>
             [] \<in> set (args (store self t)) \<or> Quoted [] \<in> set toks"
    by simp
  with Cons.prems empty_arg_store [of sv t self] show ?case by auto
qed

text \<open>
  Claim C6. In multi-token mode a free-standing unquoted value of length zero is dropped:
  an input without quote characters never adds an empty positional argument, and a command
  line of well-formed tokens and any number of delimiters between them ends with an empty
  positional argument stored exactly when it had one before or contains the empty quoted
  token \<^verbatim>\<open>""\<close>. So the empty quoted value is kept: free-standing, it is stored as an
  empty positional argument; keyed, it is stored as the empty value of its key (unless a
  later occurrence of the key gives another value).
\<close>

theorem empty_values:
  "(CHR 0x22 \<notin> set s \<and> [] \<notin> set (args self) \<longrightarrow>
      [] \<notin> set (args (parse s False self))) \<and>
   (separated items \<and> length (command_line items) < max_length \<longrightarrow>
      ([] \<in> set (args (parse (command_line items) False self)) \<longleftrightarrow>
         [] \<in> set (args self) \<or> Tok (Quoted []) \<in> set items) \<and>
      (tokens items = pre @ Keyed_Quoted d k [] # post \<and>
       (\<forall>u\<in>set post. \<not> gives_value k u) \<longrightarrow>
         get_string (parse (command_line items) False self) k = Some []))"
proof (intro conjI impI)
  assume "CHR 0x22 \<notin> set s \<and> [] \<notin> set (args self)"
  then show "[] \<notin> set (args (parse s False self))"
    unfolding parse_def by (intro parse_loop_unquoted) simp_all
next
  assume a: "separated items \<and> length (command_line items) < max_length"
  then have p: "parse (command_line items) False self = foldl store self (tokens items)"
    using parse_loop_command_line [of items 0 "command_line items" self]
    by (simp add: parse_def)
  from a have wf: "\<forall>t\<in>set (tokens items). well_formed_token False t"
    using separated_tokens_well_formed by blast
  show "[] \<in> set (args (parse (command_line items) False self)) \<longleftrightarrow>
        [] \<in> set (args self) \<or> Tok (Quoted []) \<in> set items"
    by (simp only: p empty_arg_foldl_store [OF wf] tokens_mem_iff)
  {
    assume "tokens items = pre @ Keyed_Quoted d k [] # post \<and>
            (\<forall>u\<in>set post. \<not> gives_value k u)"
    then show "get_string (parse (command_line items) False self) k = Some []"
      using last_value_stored [of "tokens items" pre "Keyed_Quoted d k []" post d k "[]" self]
      by (simp add: p get_string_def find_opt_def)
  }
qed

text \<open>
  The theorem at \<^verbatim>\<open>a  b \<close> (two delimiters in a row, and one at the end) and at
  \<^verbatim>\<open>"" --k=""\<close>.
\<close>

theorem empty_values_witness:
  "args (parse ''a  b '' False empty_options) = [''a'', ''b''] \<and>
   [] \<notin> set (args (parse ''a  b '' False empty_options)) \<and>
   [] \<in> set (args (parse ([CHR 0x22, CHR 0x22] @ '' --k='' @ [CHR 0x22, CHR 0x22]) False
     empty_options)) \<and>
   get_string (parse ([CHR 0x22, CHR 0x22] @ '' --k='' @ [CHR 0x22, CHR 0x22]) False
     empty_options) ''k'' = Some []"
proof -
  let ?items = "[Tok (Quoted []), Ws CHR '' '', Tok (Keyed_Quoted ''--'' ''k'' [])]"
  have items: "separated ?items \<and> length (command_line ?items) < max_length"
    by (simp add: eval_shapes)
  have q: "Tok (Quoted []) \<in> set ?items" by simp
  have k: "tokens ?items = [Quoted []] @ Keyed_Quoted ''--'' ''k'' [] # [] \<and>
           (\<forall>u\<in>set []. \<not> gives_value ''k'' u)"
    by simp
  have e: "CHR 0x22 \<notin> set ''a  b '' \<and> [] \<notin> set (args empty_options)"
    by (simp add: empty_options_def)
  have "args (parse ''a  b '' False empty_options) = [''a'', ''b'']"
    by (simp add: eval_parse)
  moreover have "[] \<notin> set (args (parse ''a  b '' False empty_options))"
    using conjunct1 [OF empty_values [where s = "''a  b ''" and self = empty_options]] e
    by blast
  moreover
  have "[] \<in> set (args (parse (command_line ?items) False empty_options))"
    "get_string (parse (command_line ?items) False empty_options) ''k'' = Some []"
    using conjunct2 [OF empty_values [where items = ?items and self = empty_options
          and pre = "[Quoted []]" and d = "''--''" and k = "''k''" and post = "[]"]] items q k
    by blast+
  ultimately show ?thesis by simp
qed

section \<open>\<^verbatim>\<open>strip_quotes\<close> away from its boundary inputs\<close>

text \<open>
  On every view that is not empty and holds neither a single quote nor exactly two quotes,
  \<^verbatim>\<open>strip_quotes\<close> returns what the specification says, reads only characters of the
  view and returns a sub-range of it.
\<close>

lemma butlast_upt_add: "butlast [b..<b + n] = [b..<b + n - 1]"
  by (cases n) simp_all

lemma content_tl: "tl (map mem [b..<b + n]) = map mem [Suc b..<b + n]"
  by (simp add: map_tl [symmetric])

lemma content_butlast: "butlast (map mem [b..<b + n]) = map mem [b..<b + n - 1]"
  by (simp only: map_butlast [symmetric] butlast_upt_add)

lemma content_butlast_Suc:
  "butlast (map mem [Suc b..<b + n]) = map mem [Suc b..<b + n - 1]"
proof (cases n)
  case 0
  then show ?thesis by simp
next
  case (Suc m)
  have "butlast (map mem [Suc b..<Suc b + m]) = map mem [Suc b..<Suc b + m - 1]"
    by (rule content_butlast)
  with Suc show ?thesis by simp
qed

lemma content_hd: "0 < n \<Longrightarrow> hd (map mem [b..<b + n]) = mem b"
  by (simp add: hd_map)

lemma content_last: "0 < n \<Longrightarrow> last (map mem [b..<b + n]) = mem (b + n - 1)"
  by (simp add: last_map)

lemma content_last_Suc: "1 < n \<Longrightarrow> last (map mem [Suc b..<b + n]) = mem (b + n - 1)"
  by (simp add: last_map)

lemma view_content:
  "sv_content mem \<lparr>sv_data = b, sv_size = k\<rparr> = map mem [b..<b + k]"
  by (simp add: sv_content_def sv_begin_def sv_end_def)

lemma strip_quotes_elsewhere:
  assumes "sv_content mem s \<noteq> []" "sv_content mem s \<noteq> [CHR 0x22]"
    and "sv_content mem s \<noteq> [CHR 0x22, CHR 0x22]"
  shows "sv_content mem (snd (strip_quotes mem s)) = strip_quotes_spec (sv_content mem s) \<and>
         sub_range (snd (strip_quotes mem s)) s \<and>
         (\<forall>p\<in>set (fst (strip_quotes mem s)). in_view p s)"
proof -
  define b n where "b = sv_data s" and "n = sv_size s"
  have c: "sv_content mem s = map mem [b..<b + n]"
    by (simp add: sv_content_def sv_begin_def sv_end_def b_def n_def)
  from assms(1) have n: "0 < n" by (simp add: c)
  have ne: "map mem [b..<b + n] \<noteq> []" using n by simp
  have one: "map mem [b..<b + 1] = [mem b]" by simp
  have two: "map mem [b..<b + 2] = [mem b, mem (b + 1)]"
    by (simp add: upt_conv_Cons numeral_2_eq_2)
  from assms(2) one have n1: "mem b = CHR 0x22 \<Longrightarrow> n \<noteq> 1"
    by (auto simp: c)
  from assms(3) two have n2: "mem b = CHR 0x22 \<Longrightarrow> mem (b + 1) = CHR 0x22 \<Longrightarrow> n \<noteq> 2"
    by (auto simp: c)
  let ?r = "snd (strip_quotes mem s)"
  have bounds: "sub_range \<lparr>sv_data = b', sv_size = k\<rparr> s \<and> (\<forall>p\<in>set [b, b + n - 1]. in_view p s)"
    if "b \<le> b'" "b' + k \<le> b + n" for b' k
    using that n by (simp add: sub_range_def in_view_def sv_begin_def sv_end_def b_def n_def)
  consider
      (both) "mem b = CHR 0x22" "mem (b + n - 1) = CHR 0x22"
    | (lead) "mem b = CHR 0x22" "mem (b + n - 1) \<noteq> CHR 0x22"
    | (trail) "mem b \<noteq> CHR 0x22" "mem (b + n - 1) = CHR 0x22"
    | (none) "mem b \<noteq> CHR 0x22" "mem (b + n - 1) \<noteq> CHR 0x22"
    by blast
  then show ?thesis
  proof cases
    case both
    have "n \<noteq> 1" using n1 both(1) by blast
    moreover have "n \<noteq> 2"
    proof
      assume "n = 2"
      with both(2) have "mem (b + 1) = CHR 0x22" by simp
      with n2 both(1) \<open>n = 2\<close> show False by blast
    qed
    ultimately have n3: "2 < n" using n by arith
    have e: "b + n - 1 \<noteq> b + 1" "b \<noteq> b + n" "b + n \<noteq> b + 1"
      "b + n - 1 - 1 + 1 - (b + 1) = n - 2"
      using n3 by arith+
    have r: "strip_quotes mem s = ([b, b + n - 1], \<lparr>sv_data = b + 1, sv_size = n - 2\<rparr>)"
      unfolding strip_quotes_def sv_begin_def sv_end_def Let_def b_def [symmetric]
        n_def [symmetric]
      using both e by simp
    have idx: "Suc b + (n - 2) = b + n - 1" "b + 1 = Suc b" using n3 by arith+
    have "sv_content mem ?r = map mem [Suc b..<b + n - 1]"
      by (simp only: r snd_conv view_content idx)
    moreover have "strip_quotes_spec (sv_content mem s) = map mem [Suc b..<b + n - 1]"
    proof -
      have 2: "hd (map mem [b..<b + n]) = CHR 0x22" using n both(1) by (simp add: content_hd)
      have 3: "map mem [Suc b..<b + n] \<noteq> []" using n3 by simp
      have 4: "last (map mem [Suc b..<b + n]) = CHR 0x22"
        using n3 both(2) by (simp add: content_last_Suc)
      show ?thesis
        unfolding strip_quotes_spec_def c Let_def
        by (simp only: ne 2 3 4 content_tl content_butlast_Suc simp_thms if_True)
    qed
    moreover have "sub_range ?r s \<and> (\<forall>p\<in>set (fst (strip_quotes mem s)). in_view p s)"
      unfolding r fst_conv snd_conv by (rule bounds) (use n3 in arith)+
    ultimately show ?thesis by metis
  next
    case lead
    have "n \<noteq> 1" using n1 lead(1) by blast
    then have n2': "1 < n" using n by arith
    have e: "b + n - 1 \<noteq> b + 1 \<or> mem (b + n - 1) \<noteq> CHR 0x22" "b \<noteq> b + n" "b + n \<noteq> b + 1"
      "b + n - 1 + 1 - (b + 1) = n - 1"
      using n2' lead by simp_all
    have r: "strip_quotes mem s = ([b, b + n - 1], \<lparr>sv_data = b + 1, sv_size = n - 1\<rparr>)"
      unfolding strip_quotes_def sv_begin_def sv_end_def Let_def b_def [symmetric]
        n_def [symmetric]
      using lead e by simp
    have idx: "Suc b + (n - 1) = b + n" "b + 1 = Suc b" using n2' by arith+
    have "sv_content mem ?r = map mem [Suc b..<b + n]"
      by (simp only: r snd_conv view_content idx)
    moreover have "strip_quotes_spec (sv_content mem s) = map mem [Suc b..<b + n]"
    proof -
      have 2: "hd (map mem [b..<b + n]) = CHR 0x22" using n lead(1) by (simp add: content_hd)
      have 3: "map mem [Suc b..<b + n] \<noteq> []" using n2' by simp
      have 4: "last (map mem [Suc b..<b + n]) \<noteq> CHR 0x22"
        using n2' lead(2) by (simp add: content_last_Suc)
      show ?thesis
        unfolding strip_quotes_spec_def c Let_def
        by (simp only: ne 2 3 4 content_tl simp_thms if_True if_False)
    qed
    moreover have "sub_range ?r s \<and> (\<forall>p\<in>set (fst (strip_quotes mem s)). in_view p s)"
      unfolding r fst_conv snd_conv by (rule bounds) (use n2' in arith)+
    ultimately show ?thesis by metis
  next
    case trail
    have "n \<noteq> 1" using trail by auto
    then have n2': "1 < n" using n by arith
    have e: "b + n - 1 \<noteq> b" "b + n \<noteq> b" "b + n - 1 - 1 + 1 - b = n - 1"
      using n2' by arith+
    have r: "strip_quotes mem s = ([b, b + n - 1], \<lparr>sv_data = b, sv_size = n - 1\<rparr>)"
      unfolding strip_quotes_def sv_begin_def sv_end_def Let_def b_def [symmetric]
        n_def [symmetric]
      using trail e by simp
    have idx: "b + (n - 1) = b + n - 1" using n2' by arith
    have "sv_content mem ?r = map mem [b..<b + n - 1]"
      by (simp only: r snd_conv view_content idx)
    moreover have "strip_quotes_spec (sv_content mem s) = map mem [b..<b + n - 1]"
    proof -
      have 2: "hd (map mem [b..<b + n]) \<noteq> CHR 0x22" using n trail(1) by (simp add: content_hd)
      have 4: "last (map mem [b..<b + n]) = CHR 0x22"
        using n trail(2) by (simp add: content_last)
      show ?thesis
        unfolding strip_quotes_spec_def c Let_def
        by (simp only: ne 2 4 content_butlast simp_thms if_True if_False)
    qed
    moreover have "sub_range ?r s \<and> (\<forall>p\<in>set (fst (strip_quotes mem s)). in_view p s)"
      unfolding r fst_conv snd_conv by (rule bounds) (use n2' in arith)+
    ultimately show ?thesis by metis
  next
    case none
    have e: "b + n \<noteq> b" "b + n - 1 + 1 - b = n"
      using n by arith+
    have r: "strip_quotes mem s = ([b, b + n - 1], \<lparr>sv_data = b, sv_size = n\<rparr>)"
      unfolding strip_quotes_def sv_begin_def sv_end_def Let_def b_def [symmetric]
        n_def [symmetric]
      using none e by simp
    have "sv_content mem ?r = map mem [b..<b + n]"
      by (simp only: r snd_conv view_content)
    moreover have "strip_quotes_spec (sv_content mem s) = map mem [b..<b + n]"
    proof -
      have 2: "hd (map mem [b..<b + n]) \<noteq> CHR 0x22" using n none(1) by (simp add: content_hd)
      have 4: "last (map mem [b..<b + n]) \<noteq> CHR 0x22"
        using n none(2) by (simp add: content_last)
      show ?thesis
        unfolding strip_quotes_spec_def c Let_def
        by (simp only: ne 2 4 simp_thms if_True if_False)
    qed
    moreover have "sub_range ?r s \<and> (\<forall>p\<in>set (fst (strip_quotes mem s)). in_view p s)"
      unfolding r fst_conv snd_conv by (rule bounds) (use n in arith)+
    ultimately show ?thesis by metis
  qed
qed

section \<open>\<^verbatim>\<open>strip_quotes\<close> at its boundary inputs\<close>

text \<open>
  Claim C4: \<^verbatim>\<open>strip_quotes\<close> removes one leading quote and one trailing quote where
  present, each on its own, so that the string of two quotes becomes the empty string.
  The code does not do so at the string of two quotes: after the leading quote is skipped,
  the test \<^verbatim>\<open>e != b\<close> keeps the trailing quote, and the result is the view of one quote,
  where the specification's function gives the empty string.
\<close>

theorem strip_quotes_two_quotes:
  "sv_content (mem_of [CHR 0x22, CHR 0x22]) (view_of [CHR 0x22, CHR 0x22]) = [CHR 0x22, CHR 0x22] \<and>
   snd (strip_quotes (mem_of [CHR 0x22, CHR 0x22]) (view_of [CHR 0x22, CHR 0x22])) =
     \<lparr>sv_data = 1, sv_size = 1\<rparr> \<and>
   sv_content (mem_of [CHR 0x22, CHR 0x22])
     (snd (strip_quotes (mem_of [CHR 0x22, CHR 0x22]) (view_of [CHR 0x22, CHR 0x22]))) =
     [CHR 0x22] \<and>
   strip_quotes_spec [CHR 0x22, CHR 0x22] = []"
  by (simp add: eval_strip strip_quotes_spec_def upt_rec)

text \<open>
  Claim C10: \<^verbatim>\<open>strip_quotes\<close> reads no character outside its input and returns a
  sub-range of it, on every view. The code does not do so at the empty view and at the
  view of a single quote. On the empty view \<^verbatim>\<open>*b\<close> is read before \<^verbatim>\<open>b != end(s)\<close> is
  tested, which is a read at the end of the view, and the result \<^verbatim>\<open>{b, e+1}\<close> has one
  character, past the end of the view. On the view of a single quote the result is the
  one character after the view.
\<close>

theorem strip_quotes_out_of_bounds:
  "strip_quotes (mem_of []) (view_of []) = ([0], \<lparr>sv_data = 0, sv_size = 1\<rparr>) \<and>
   \<not> in_view 0 (view_of []) \<and>
   \<not> sub_range \<lparr>sv_data = 0, sv_size = 1\<rparr> (view_of []) \<and>
   strip_quotes (mem_of [CHR 0x22]) (view_of [CHR 0x22]) = ([0], \<lparr>sv_data = 1, sv_size = 1\<rparr>) \<and>
   \<not> sub_range \<lparr>sv_data = 1, sv_size = 1\<rparr> (view_of [CHR 0x22])"
  by (simp add: eval_strip)

end
